theory Spec2Isabelle
  imports Complex_Main
begin

section \<open>Python and NumPy values\<close>

text \<open>
  The exceptions that the sampler's own statements can raise.
\<close>

datatype error = ValueError | TypeError | IndexError | ZeroDivisionError | UnboundLocalError

text \<open>
  A log-probability is a NumPy float. Rounding is not modelled (a finite value is a real
  number), but the three special values are, because the log-density may be minus
  infinity and the acceptance test compares a difference of two such values with zero.
\<close>

datatype float64 = Fin real | PInf | NInf | NaN

fun fsub :: "float64 \<Rightarrow> float64 \<Rightarrow> float64" where
  "fsub NaN y = NaN"
| "fsub x NaN = NaN"
| "fsub (Fin a) (Fin b) = Fin (a - b)"
| "fsub (Fin a) PInf = NInf"
| "fsub (Fin a) NInf = PInf"
| "fsub PInf PInf = NaN"
| "fsub PInf y = PInf"
| "fsub NInf NInf = NaN"
| "fsub NInf y = NInf"

text \<open>\<open>x < y\<close> on floats; every comparison with NaN is false.\<close>

fun flt :: "float64 \<Rightarrow> float64 \<Rightarrow> bool" where
  "flt (Fin a) (Fin b) = (a < b)"
| "flt (Fin a) PInf = True"
| "flt NInf (Fin b) = True"
| "flt NInf PInf = True"
| "flt x y = False"

text \<open>\<open>x >= y\<close> on floats.\<close>

fun fge :: "float64 \<Rightarrow> float64 \<Rightarrow> bool" where
  "fge (Fin a) (Fin b) = (b \<le> a)"
| "fge PInf (Fin b) = True"
| "fge PInf PInf = True"
| "fge PInf NInf = True"
| "fge (Fin a) NInf = True"
| "fge NInf NInf = True"
| "fge x y = False"

fun np_exp :: "float64 \<Rightarrow> float64" where
  "np_exp (Fin a) = Fin (exp a)"
| "np_exp PInf = PInf"
| "np_exp NInf = Fin 0"
| "np_exp NaN = NaN"

text \<open>
  \<open>int(a / b)\<close> under \<open>from __future__ import division\<close>: the true quotient,
  truncated towards zero (the quotient is exact here; Python rounds it to a float first,
  which differs only beyond \<open>2^53\<close>). The caller checks \<open>b = 0\<close>, where Python raises.
\<close>

definition int_truediv :: "int \<Rightarrow> int \<Rightarrow> int" where
  "int_truediv a b = sgn a * sgn b * (\<bar>a\<bar> div \<bar>b\<bar>)"

text \<open>
  The row that index \<open>ind\<close> selects in an array of \<open>n\<close> rows: a negative index counts
  from the end, and an index outside \<open>[-n, n)\<close> raises IndexError (here \<open>None\<close>).
\<close>

definition np_index :: "nat \<Rightarrow> int \<Rightarrow> nat option" where
  "np_index n ind =
     (if 0 \<le> ind \<and> ind < int n then Some (nat ind)
      else if - int n \<le> ind \<and> ind < 0 then Some (nat (int n + ind))
      else None)"

text \<open>
  The proposal covariance: a float in one dimension, a matrix otherwise.
\<close>

datatype cov = Scalar real | Matrix "real list list"

fun np_sqrt :: "cov \<Rightarrow> cov" where
  "np_sqrt (Scalar c) = Scalar (sqrt c)"
| "np_sqrt (Matrix m) = Matrix (map (map sqrt) m)"

subsection \<open>The random number generator\<close>

text \<open>
  \<open>numpy.random.mtrand.RandomState\<close> is not part of the repository. Its internal state
  is a value of an arbitrary type \<open>'r\<close>, and the three draws the sampler makes are
  parameters: each takes the state and returns the variate with the next state.
  \<open>rand\<close> returns a uniform variate of \<open>[0, 1)\<close>. The fourth parameter is what a call
  of \<open>set_state\<close> that raises on a malformed value leaves of the generator:
  \<open>partial_write x r\<close> is the state after the failed \<open>set_state(x)\<close> from the state \<open>r\<close>.
  NumPy rejects some values before it writes anything (then this is \<open>r\<close>) and others
  while it writes.
\<close>

record 'r mtrand =
  normal :: "real list \<Rightarrow> cov \<Rightarrow> 'r \<Rightarrow> real list \<times> 'r"
  multivariate_normal :: "real list \<Rightarrow> cov \<Rightarrow> 'r \<Rightarrow> real list \<times> 'r"
  rand :: "'r \<Rightarrow> real \<times> 'r"
  partial_write :: "string \<Rightarrow> 'r \<Rightarrow> 'r"

text \<open>
  \<open>get_state\<close> and \<open>set_state\<close> of \<open>RandomState\<close>. A snapshot is a copy of the internal
  state. What a caller can pass as a generator state is \<open>None\<close>, a snapshot, or any
  other object, which stands for every malformed or ill-shaped value.
\<close>

datatype 'r pyobj = PyNone | PyState 'r | PyOther string

definition get_state :: "'r \<Rightarrow> 'r pyobj" where
  "get_state r = PyState r"

text \<open>
  \<open>set_state\<close> returns the exception it raises, if any, and the state it leaves. It
  installs a snapshot; it raises TypeError on \<open>None\<close> before it writes; on any other
  value it raises and leaves what it wrote until then.
\<close>

fun set_state :: "'r mtrand \<Rightarrow> 'r pyobj \<Rightarrow> 'r \<Rightarrow> error option \<times> 'r" where
  "set_state R (PyState r') r = (None, r')"
| "set_state R PyNone r = (Some TypeError, r)"
| "set_state R (PyOther x) r = (Some ValueError, partial_write R x r)"

section \<open>The base sampler (sampler.py)\<close>

text \<open>
  The attributes of a \<open>Sampler\<close> object, with \<open>cov\<close> of \<open>MetropolisSampler\<close>. An
  attribute that the source writes \<open>_x\<close> is the field \<open>u_x\<close>. \<open>u_random\<close> is the
  internal state of the generator object. The callback \<open>lnprobfn\<close> is a function of the
  position and the fixed arguments; a callback that raises is not modelled.
\<close>

type_synonym 'r result = "real list \<times> float64 \<times> 'r pyobj"

record ('r, 'a, 'k) sampler =
  dim :: nat
  lnprobfn :: "real list \<Rightarrow> 'a \<Rightarrow> 'k \<Rightarrow> float64"
  args :: 'a
  kwargs :: 'k
  cov :: cov
  u_random :: 'r
  u_chain :: "real list list"
  u_lnprob :: "float64 list"
  iterations :: nat
  accepted :: nat
  u_last_run :: "'r result option"

definition reset :: "('r, 'a, 'k) sampler \<Rightarrow> ('r, 'a, 'k) sampler" where
  "reset s = s\<lparr>u_chain := [], u_lnprob := [], iterations := 0, accepted := 0,
               u_last_run := None\<rparr>"

text \<open>
  \<open>__init__\<close> of \<open>MetropolisSampler\<close>: the attributes are set, the generator starts in
  a state \<open>r0\<close> that the caller does not choose, and \<open>reset\<close> runs.
\<close>

definition init ::
  "cov \<Rightarrow> nat \<Rightarrow> (real list \<Rightarrow> 'a \<Rightarrow> 'k \<Rightarrow> float64) \<Rightarrow> 'a \<Rightarrow> 'k \<Rightarrow> 'r \<Rightarrow> ('r, 'a, 'k) sampler" where
  "init c d f a k r0 =
     reset \<lparr>dim = d, lnprobfn = f, args = a, kwargs = k, cov = c, u_random = r0,
            u_chain = [], u_lnprob = [], iterations = 0, accepted = 0, u_last_run = None\<rparr>"

definition random_state :: "('r, 'a, 'k) sampler \<Rightarrow> 'r pyobj" where
  "random_state s = get_state (u_random s)"

text \<open>
  The setter of \<open>random_state\<close>: \<open>try: set_state(state) except: pass\<close>. Like every
  operation it returns an error or a value, here the updated sampler. The exception is
  dropped; the generator is the object \<open>set_state\<close> worked on, in the state it left.
\<close>

definition random_state_set ::
  "'r mtrand \<Rightarrow> 'r pyobj \<Rightarrow> ('r, 'a, 'k) sampler \<Rightarrow> error + ('r, 'a, 'k) sampler" where
  "random_state_set R state s =
     (case set_state R state (u_random s) of
        (None, r') \<Rightarrow> Inr (s\<lparr>u_random := r'\<rparr>)
      | (Some e, r') \<Rightarrow> Inr (s\<lparr>u_random := r'\<rparr>))"

definition get_lnprob :: "('r, 'a, 'k) sampler \<Rightarrow> real list \<Rightarrow> float64" where
  "get_lnprob s p = lnprobfn s p (args s) (kwargs s)"

section \<open>The Metropolis sampler (metropolis_sampler.py)\<close>

text \<open>
  \<open>sample\<close> is a generator function. Calling it runs nothing: it returns a generator
  object, which holds the arguments until the first \<open>next\<close>, then the local variables
  at the \<open>yield\<close> where it is suspended, and is closed once it has returned or raised.
\<close>

record frame =
  l_p :: "real list"
  l_lnprob :: float64
  l_thin :: int
  l_store_chain :: bool
  l_iterations :: int
  l_i0 :: nat
  l_i :: nat

datatype 'r generator =
  Created "real list" "float64 option" "'r pyobj" int bool int
| Suspended frame
| Closed

definition sample ::
  "real list \<Rightarrow> float64 option \<Rightarrow> 'r pyobj \<Rightarrow> int \<Rightarrow> bool \<Rightarrow> int \<Rightarrow> 'r generator" where
  "sample p lnprob rstate thin store_chain n = Created p lnprob rstate thin store_chain n"

text \<open>
  The statements before the loop: the generator state is set (the setter swallows a
  failure), the starting log-probability is computed when it is not given, and with
  \<open>store_chain\<close> the two buffers grow by \<open>N = int(iterations / thin)\<close> rows of zeros.
  \<open>np.zeros\<close> raises ValueError on a negative \<open>N\<close>.
\<close>

definition sample_enter ::
  "'r mtrand \<Rightarrow> real list \<Rightarrow> float64 option \<Rightarrow> 'r pyobj \<Rightarrow> int \<Rightarrow> bool \<Rightarrow> int
     \<Rightarrow> ('r, 'a, 'k) sampler \<Rightarrow> (error + frame) \<times> ('r, 'a, 'k) sampler" where
  "sample_enter R p lnprob rstate thin store_chain n s =
     (case random_state_set R rstate s of
        Inl e \<Rightarrow> (Inl e, s)
      | Inr s1 \<Rightarrow>
          (let lnprob1 = (case lnprob of None \<Rightarrow> get_lnprob s1 p | Some l \<Rightarrow> l);
               fr = \<lparr>l_p = p, l_lnprob = lnprob1, l_thin = thin, l_store_chain = store_chain,
                     l_iterations = n, l_i0 = iterations s1, l_i = 0\<rparr>
           in if store_chain then
                (if thin = 0 then (Inl ZeroDivisionError, s1)
                 else if int_truediv n thin < 0 then (Inl ValueError, s1)
                 else
                   (let N = nat (int_truediv n thin);
                        s2 = s1\<lparr>u_chain := u_chain s1 @ replicate N (replicate (dim s1) 0)\<rparr>;
                        s3 = s2\<lparr>u_lnprob := u_lnprob s2 @ replicate N (Fin 0)\<rparr>
                    in (Inr fr, s3)))
              else (Inr fr, s1)))"

text \<open>
  The acceptance test of one step, on the candidate's and the current log-probability:
  \<open>diff = newlnprob - lnprob\<close>; \<open>if diff < 0: diff = np.exp(diff) - rand()\<close>; the
  candidate is accepted when \<open>diff > 0\<close>. The result is the decision and the generator
  state after the test.
\<close>

definition accept_test :: "'r mtrand \<Rightarrow> float64 \<Rightarrow> float64 \<Rightarrow> 'r \<Rightarrow> bool \<times> 'r" where
  "accept_test R newlnprob lnprob r =
     (let diff = fsub newlnprob lnprob
      in if flt diff (Fin 0) then
           (let (u, r') = rand R r in (flt (Fin 0) (fsub (np_exp diff) (Fin u)), r'))
         else (flt (Fin 0) diff, r))"

text \<open>
  \<open>if store_chain and i % thin == 0\<close>: the current position and log-probability are
  written at row \<open>i0 + int(i / thin)\<close>, first into the chain, then into the
  log-probabilities. A position is a vector of the sampler's dimension and is stored as
  it is: what NumPy does with a position of another shape (broadcasting, or ValueError)
  is not modelled.
\<close>

definition store_row ::
  "frame \<Rightarrow> ('r, 'a, 'k) sampler \<Rightarrow> (error + unit) \<times> ('r, 'a, 'k) sampler" where
  "store_row fr s =
     (if l_store_chain fr then
        (if l_thin fr = 0 then (Inl ZeroDivisionError, s)
         else if int (l_i fr) mod l_thin fr = 0 then
           (let ind = int (l_i0 fr) + int_truediv (int (l_i fr)) (l_thin fr)
            in case np_index (length (u_chain s)) ind of
                 None \<Rightarrow> (Inl IndexError, s)
               | Some j \<Rightarrow>
                   (let s1 = s\<lparr>u_chain := (u_chain s)[j := l_p fr]\<rparr>
                    in case np_index (length (u_lnprob s1)) ind of
                         None \<Rightarrow> (Inl IndexError, s1)
                       | Some j' \<Rightarrow>
                           (Inr (), s1\<lparr>u_lnprob := (u_lnprob s1)[j' := l_lnprob fr]\<rparr>)))
         else (Inr (), s))
      else (Inr (), s))"

text \<open>
  The candidate of one step: a univariate normal draw around the current position when
  \<open>dim == 1\<close>, a multivariate normal draw otherwise.
\<close>

definition propose ::
  "'r mtrand \<Rightarrow> ('r, 'a, 'k) sampler \<Rightarrow> real list \<Rightarrow> real list \<times> 'r" where
  "propose R s p =
     (if dim s = 1 then normal R p (np_sqrt (cov s)) (u_random s)
      else multivariate_normal R p (cov s) (u_random s))"

text \<open>
  The body of the loop for the step index \<open>l_i fr\<close>, up to its \<open>yield\<close>: the frame at
  the suspension and the triple that is yielded.
\<close>

definition sample_step ::
  "'r mtrand \<Rightarrow> frame \<Rightarrow> ('r, 'a, 'k) sampler
     \<Rightarrow> (error + frame \<times> 'r result) \<times> ('r, 'a, 'k) sampler" where
  "sample_step R fr s =
     (let s1 = s\<lparr>iterations := iterations s + 1\<rparr>;
          (q, r1) = propose R s1 (l_p fr);
          s2 = s1\<lparr>u_random := r1\<rparr>;
          newlnprob = get_lnprob s2 q;
          (acc, r2) = accept_test R newlnprob (l_lnprob fr) (u_random s2);
          s3 = s2\<lparr>u_random := r2\<rparr>;
          fr1 = (if acc then fr\<lparr>l_p := q, l_lnprob := newlnprob\<rparr> else fr);
          s4 = (if acc then s3\<lparr>accepted := accepted s3 + 1\<rparr> else s3)
      in case store_row fr1 s4 of
           (Inl e, s5) \<Rightarrow> (Inl e, s5)
         | (Inr u, s5) \<Rightarrow> (Inr (fr1, (l_p fr1, l_lnprob fr1, random_state s5)), s5))"

text \<open>
  The head of \<open>for i in range(iterations)\<close> for a frame whose \<open>l_i\<close> is the next index:
  the body runs when the index is in the range, otherwise the generator returns
  (\<open>None\<close> is StopIteration).
\<close>

definition sample_loop ::
  "'r mtrand \<Rightarrow> frame \<Rightarrow> ('r, 'a, 'k) sampler
     \<Rightarrow> (error + 'r result option) \<times> 'r generator \<times> ('r, 'a, 'k) sampler" where
  "sample_loop R fr s =
     (if int (l_i fr) < l_iterations fr then
        (case sample_step R fr s of
           (Inl e, s') \<Rightarrow> (Inl e, Closed, s')
         | (Inr (fr', y), s') \<Rightarrow> (Inr (Some y), Suspended fr', s'))
      else (Inr None, Closed, s))"

text \<open>\<open>next(g)\<close> on a generator of \<open>sample\<close>.\<close>

fun gen_next ::
  "'r mtrand \<Rightarrow> 'r generator \<Rightarrow> ('r, 'a, 'k) sampler
     \<Rightarrow> (error + 'r result option) \<times> 'r generator \<times> ('r, 'a, 'k) sampler" where
  "gen_next R (Created p lnprob rstate thin store_chain n) s =
     (case sample_enter R p lnprob rstate thin store_chain n s of
        (Inl e, s') \<Rightarrow> (Inl e, Closed, s')
      | (Inr fr, s') \<Rightarrow> sample_loop R fr s')"
| "gen_next R (Suspended fr) s = sample_loop R (fr\<lparr>l_i := l_i fr + 1\<rparr>) s"
| "gen_next R Closed s = (Inr None, Closed, s)"

text \<open>The number of values a generator can still yield, at most.\<close>

fun remaining :: "'r generator \<Rightarrow> nat" where
  "remaining (Created p lnprob rstate thin store_chain n) = nat n + 1"
| "remaining (Suspended fr) = nat (l_iterations fr - int (l_i fr))"
| "remaining Closed = 0"

lemma sample_step_frame:
  assumes "sample_step R fr s = (Inr (fr', y), s')"
  shows "l_i fr' = l_i fr \<and> l_iterations fr' = l_iterations fr"
  using assms
  by (auto simp: sample_step_def Let_def split: prod.splits sum.splits if_splits)

lemma sample_enter_frame:
  assumes "sample_enter R p lnprob rstate thin store_chain n s = (Inr fr, s')"
  shows "l_i fr = 0 \<and> l_iterations fr = n"
  using assms
  by (auto simp: sample_enter_def Let_def split: sum.splits if_splits)

lemma gen_next_remaining:
  assumes "gen_next R g s = (Inr (Some y), g', s')"
  shows "remaining g' < remaining g"
proof (cases g)
  case (Created p lnprob rstate thin store_chain n)
  then show ?thesis
    using assms
    by (auto simp: sample_loop_def split: prod.splits sum.splits if_splits
        dest!: sample_enter_frame sample_step_frame)
next
  case (Suspended fr)
  then show ?thesis
    using assms
    by (auto simp: sample_loop_def split: prod.splits sum.splits if_splits
        dest!: sample_step_frame)
next
  case Closed
  then show ?thesis using assms by simp
qed

text \<open>
  The loop of \<open>run\<close>, \<open>for results in g: pass\<close>: the generator is advanced until it
  returns, and \<open>results\<close> keeps the last value it yielded (\<open>None\<close> while unbound).
\<close>

function for_results ::
  "'r mtrand \<Rightarrow> 'r result option \<Rightarrow> 'r generator \<Rightarrow> ('r, 'a, 'k) sampler
     \<Rightarrow> (error + 'r result option) \<times> ('r, 'a, 'k) sampler" where
  "for_results R results g s =
     (case gen_next R g s of
        (Inl e, g', s') \<Rightarrow> (Inl e, s')
      | (Inr None, g', s') \<Rightarrow> (Inr results, s')
      | (Inr (Some y), g', s') \<Rightarrow> for_results R (Some y) g' s')"
  by pat_completeness auto
termination
  by (relation "measure (\<lambda>(R, results, g, s). remaining g)")
    (auto dest: gen_next_remaining [OF sym])

text \<open>
  \<open>run\<close>, with the keyword arguments it forwards to \<open>sample\<close> written out (\<open>thin\<close>,
  \<open>store_chain\<close>). \<open>results[:3]\<close> on the unbound \<open>results\<close> raises UnboundLocalError.
\<close>

definition run ::
  "'r mtrand \<Rightarrow> real list option \<Rightarrow> int \<Rightarrow> float64 option \<Rightarrow> 'r pyobj \<Rightarrow> int \<Rightarrow> bool
     \<Rightarrow> ('r, 'a, 'k) sampler \<Rightarrow> (error + 'r result) \<times> ('r, 'a, 'k) sampler" where
  "run R p0 N lnprob0 rstate0 thin store_chain s =
     (case (case p0 of
              Some p \<Rightarrow> Inr (p, lnprob0, rstate0)
            | None \<Rightarrow>
                (case u_last_run s of
                   None \<Rightarrow> Inl ValueError
                 | Some (lp, ll, lr) \<Rightarrow>
                     Inr (lp,
                          (case lnprob0 of None \<Rightarrow> Some ll | Some l \<Rightarrow> Some l),
                          (case rstate0 of PyNone \<Rightarrow> lr | PyState r \<Rightarrow> rstate0
                                         | PyOther x \<Rightarrow> rstate0)))) of
        Inl e \<Rightarrow> (Inl e, s)
      | Inr (p, lnprob, rstate) \<Rightarrow>
          (case for_results R None (sample p lnprob rstate thin store_chain N) s of
             (Inl e, s') \<Rightarrow> (Inl e, s')
           | (Inr None, s') \<Rightarrow> (Inl UnboundLocalError, s')
           | (Inr (Some results), s') \<Rightarrow> (Inr results, s'\<lparr>u_last_run := Some results\<rparr>)))"

text \<open>
  \<open>list(g)\<close>: every value a generator of \<open>sample\<close> yields until it returns or raises,
  with the exception if there is one and the sampler it leaves.
\<close>

function yielded ::
  "'r mtrand \<Rightarrow> 'r generator \<Rightarrow> ('r, 'a, 'k) sampler
     \<Rightarrow> 'r result list \<times> error option \<times> ('r, 'a, 'k) sampler" where
  "yielded R g s =
     (case gen_next R g s of
        (Inl e, g', s') \<Rightarrow> ([], Some e, s')
      | (Inr None, g', s') \<Rightarrow> ([], None, s')
      | (Inr (Some y), g', s') \<Rightarrow>
          (case yielded R g' s' of (ys, e, s'') \<Rightarrow> (y # ys, e, s'')))"
  by pat_completeness auto
termination
  by (relation "measure (\<lambda>(R, g, s). remaining g)")
    (auto dest: gen_next_remaining [OF sym])

declare yielded.simps [simp del]

subsection \<open>Concrete inputs\<close>

text \<open>
  A generator for the examples: its state counts the draws made, a normal draw moves
  every coordinate up by one (a multivariate one by two), the uniform variate is 0, and
  a failed \<open>set_state\<close> writes nothing.
\<close>

definition demo_rng :: "nat mtrand" where
  "demo_rng = \<lparr>normal = (\<lambda>p c r. (map (\<lambda>x. x + 1) p, Suc r)),
                multivariate_normal = (\<lambda>p c r. (map (\<lambda>x. x + 2) p, Suc r)),
                rand = (\<lambda>r. (0, Suc r)),
                partial_write = (\<lambda>x r. r)\<rparr>"





text \<open>
  Three one-dimensional samplers as \<open>__init__\<close> leaves them: \<open>demo_flat\<close> has a
  constant log-density, \<open>demo_up\<close> one that grows with the coordinate and \<open>demo_down\<close>
  one that falls with it.
\<close>

definition demo_flat :: "(nat, unit, unit) sampler" where
  "demo_flat = init (Scalar 1) 1 (\<lambda>p a k. Fin 0) () () 0"

definition demo_up :: "(nat, unit, unit) sampler" where
  "demo_up = init (Scalar 1) 1 (\<lambda>p a k. Fin (sum_list p)) () () 0"

definition demo_down :: "(nat, unit, unit) sampler" where
  "demo_down = init (Scalar 1) 1 (\<lambda>p a k. Fin (- sum_list p)) () () 0"

subsection \<open>The loop, unrolled\<close>

text \<open>
  Two auxiliary functions for the proofs. \<open>steps R n fr s\<close> runs the body of the loop
  \<open>n\<close> times from the frame \<open>fr\<close>, whose \<open>l_i\<close> is the next step index, and stops at the
  first exception. \<open>drive\<close> is the loop of \<open>run\<close> from the head of the loop of \<open>sample\<close>.
\<close>

fun steps ::
  "'r mtrand \<Rightarrow> nat \<Rightarrow> frame \<Rightarrow> ('r, 'a, 'k) sampler \<Rightarrow> (error + frame) \<times> ('r, 'a, 'k) sampler" where
  "steps R 0 fr s = (Inr fr, s)"
| "steps R (Suc n) fr s =
     (case sample_step R fr s of
        (Inl e, s') \<Rightarrow> (Inl e, s')
      | (Inr (fr', y), s') \<Rightarrow> steps R n (fr'\<lparr>l_i := l_i fr' + 1\<rparr>) s')"

definition drive ::
  "'r mtrand \<Rightarrow> 'r result option \<Rightarrow> frame \<Rightarrow> ('r, 'a, 'k) sampler
     \<Rightarrow> (error + 'r result option) \<times> ('r, 'a, 'k) sampler" where
  "drive R results fr s =
     (case sample_loop R fr s of
        (Inl e, g', s') \<Rightarrow> (Inl e, s')
      | (Inr None, g', s') \<Rightarrow> (Inr results, s')
      | (Inr (Some y), g', s') \<Rightarrow> for_results R (Some y) g' s')"

text \<open>\<open>list(g)\<close> from the head of the loop of \<open>sample\<close>.\<close>

definition yielded_loop ::
  "'r mtrand \<Rightarrow> frame \<Rightarrow> ('r, 'a, 'k) sampler
     \<Rightarrow> 'r result list \<times> error option \<times> ('r, 'a, 'k) sampler" where
  "yielded_loop R fr s =
     (case sample_loop R fr s of
        (Inl e, g', s') \<Rightarrow> ([], Some e, s')
      | (Inr None, g', s') \<Rightarrow> ([], None, s')
      | (Inr (Some y), g', s') \<Rightarrow>
          (case yielded R g' s' of (ys, e, s'') \<Rightarrow> (y # ys, e, s'')))"

subsection \<open>Relations between two samplers\<close>

text \<open>
  For the comparison of two step sequences: samplers with the same problem definition,
  samplers that also have their generators in the same state, frames that agree on
  everything but the base row \<open>l_i0\<close>, generators related so, and generators that do
  not store.
\<close>

definition same_problem :: "('r, 'a, 'k) sampler \<Rightarrow> ('r, 'a, 'k) sampler \<Rightarrow> bool" where
  "same_problem s s' =
     (dim s = dim s' \<and> lnprobfn s = lnprobfn s' \<and> args s = args s' \<and> kwargs s = kwargs s'
      \<and> cov s = cov s')"

definition same_draws :: "('r, 'a, 'k) sampler \<Rightarrow> ('r, 'a, 'k) sampler \<Rightarrow> bool" where
  "same_draws s s' = (same_problem s s' \<and> u_random s = u_random s')"

definition same_frame :: "frame \<Rightarrow> frame \<Rightarrow> bool" where
  "same_frame fr fr' =
     (l_p fr' = l_p fr \<and> l_lnprob fr' = l_lnprob fr \<and> l_thin fr' = l_thin fr
      \<and> l_store_chain fr' = l_store_chain fr \<and> l_iterations fr' = l_iterations fr
      \<and> l_i fr' = l_i fr)"

fun same_locals :: "'r generator \<Rightarrow> 'r generator \<Rightarrow> bool" where
  "same_locals (Suspended fr) (Suspended fr') = same_frame fr fr'"
| "same_locals (Created p lnprob rstate thin store_chain n) g' =
     (g' = Created p lnprob rstate thin store_chain n)"
| "same_locals Closed Closed = True"
| "same_locals g g' = False"

fun unstored :: "'r generator \<Rightarrow> bool" where
  "unstored (Created p lnprob rstate thin store_chain n) = (\<not> store_chain)"
| "unstored (Suspended fr) = (\<not> l_store_chain fr)"
| "unstored Closed = True"

text \<open>The chain and the log-probabilities have the same number of rows.\<close>

definition parity :: "('r, 'a, 'k) sampler \<Rightarrow> bool" where
  "parity s = (length (u_chain s) = length (u_lnprob s))"

declare for_results.simps [simp del]

section \<open>Properties\<close>

lemmas demo_defs = demo_rng_def demo_flat_def demo_up_def demo_down_def init_def reset_def

lemmas step_defs = run_def sample_def sample_enter_def random_state_set_def get_lnprob_def
  int_truediv_def sample_loop_def sample_step_def propose_def accept_test_def store_row_def
  np_index_def random_state_def get_state_def Let_def for_results.simps

subsection \<open>What a step reads and writes\<close>

lemma propose_frame [simp]:
  "propose R (s\<lparr>iterations := n\<rparr>) p = propose R s p"
  "propose R (s\<lparr>accepted := n\<rparr>) p = propose R s p"
  "propose R (s\<lparr>u_chain := c\<rparr>) p = propose R s p"
  "propose R (s\<lparr>u_lnprob := l\<rparr>) p = propose R s p"
  "propose R (s\<lparr>u_last_run := x\<rparr>) p = propose R s p"
  by (simp_all add: propose_def)

lemma get_lnprob_frame [simp]:
  "get_lnprob (s\<lparr>iterations := n\<rparr>) p = get_lnprob s p"
  "get_lnprob (s\<lparr>accepted := n\<rparr>) p = get_lnprob s p"
  "get_lnprob (s\<lparr>u_random := r\<rparr>) p = get_lnprob s p"
  "get_lnprob (s\<lparr>u_chain := c\<rparr>) p = get_lnprob s p"
  "get_lnprob (s\<lparr>u_lnprob := l\<rparr>) p = get_lnprob s p"
  "get_lnprob (s\<lparr>u_last_run := x\<rparr>) p = get_lnprob s p"
  by (simp_all add: get_lnprob_def)


text \<open>The state after one step, whether or not the row write raises.\<close>

lemma sample_step_state:
  assumes "propose R s (l_p fr) = (q, r1)"
    and "accept_test R (get_lnprob s q) (l_lnprob fr) r1 = (acc, r2)"
  shows "snd (sample_step R fr s) =
     snd (store_row (if acc then fr\<lparr>l_p := q, l_lnprob := get_lnprob s q\<rparr> else fr)
        (s\<lparr>iterations := iterations s + 1, u_random := r2,
           accepted := (if acc then accepted s + 1 else accepted s)\<rparr>))"
  using assms
  by (cases acc) (auto simp: sample_step_def Let_def split: prod.splits sum.splits)

subsection \<open>reset\<close>

text \<open>
  C9. From any sampler state, \<open>reset\<close> leaves the chain and the log-probabilities
  empty, both counters at zero and the checkpoint cleared; the state of the random
  number generator and the problem definition (dimension, callback, fixed arguments,
  proposal covariance) are what they were.
\<close>

theorem reset_clears_bookkeeping_only:
  "u_chain (reset s) = [] \<and> u_lnprob (reset s) = [] \<and> iterations (reset s) = 0
   \<and> accepted (reset s) = 0 \<and> u_last_run (reset s) = None
   \<and> u_random (reset s) = u_random s \<and> random_state (reset s) = random_state s
   \<and> dim (reset s) = dim s \<and> lnprobfn (reset s) = lnprobfn s \<and> args (reset s) = args s
   \<and> kwargs (reset s) = kwargs s \<and> cov (reset s) = cov s"
  by (simp add: reset_def random_state_def)

subsection \<open>The setter of the generator state\<close>



subsection \<open>run\<close>

text \<open>
  C6. \<open>run\<close> with the position omitted raises ValueError, with the sampler untouched,
  when there is no checkpoint; with a checkpoint it is \<open>run\<close> from the checkpoint's
  position, with the checkpoint's log-probability and generator state in place of each
  of the two that is omitted too.
\<close>

theorem run_position_omitted:
  "run R None N lnprob0 rstate0 thin store_chain s =
     (case u_last_run s of
        None \<Rightarrow> (Inl ValueError, s)
      | Some (p, lnprob, rstate) \<Rightarrow>
          run R (Some p) N
            (Some (case lnprob0 of None \<Rightarrow> lnprob | Some l \<Rightarrow> l))
            (if rstate0 = PyNone then rstate else rstate0) thin store_chain s)"
  by (cases rstate0) (auto simp: run_def split: option.splits)

text \<open>
  C10. \<open>run\<close> from a given position with \<open>N = 0\<close> returns no triple: the generator
  yields nothing, \<open>results\<close> is never bound, and the call raises UnboundLocalError with
  the checkpoint as it was. (With \<open>store_chain\<close> and \<open>thin = 0\<close> the division raises
  first.)
\<close>

theorem run_zero_iterations:
  assumes "store_chain \<longrightarrow> thin \<noteq> 0"
  shows "fst (run R (Some p0) 0 lnprob0 rstate0 thin store_chain s) = Inl UnboundLocalError
    \<and> u_last_run (snd (run R (Some p0) 0 lnprob0 rstate0 thin store_chain s)) = u_last_run s"
  using assms
  by (cases rstate0)
     (simp_all add: run_def sample_def for_results.simps sample_enter_def random_state_set_def
        sample_loop_def int_truediv_def Let_def)

theorem run_zero_iterations_witness:
  "fst (run demo_rng (Some [0]) 0 None PyNone 1 True demo_up) = Inl UnboundLocalError
   \<and> u_last_run (snd (run demo_rng (Some [0]) 0 None PyNone 1 True demo_up)) = None"
  using run_zero_iterations [of True 1 demo_rng "[0]" None PyNone demo_up]
  by (simp add: demo_defs)

subsection \<open>The acceptance test\<close>

lemma accept_test_tie: "accept_test R (Fin a) (Fin a) r = (False, r)"
  by (simp add: accept_test_def)

lemma accept_test_uphill:
  "flt (Fin 0) (fsub newlnprob lnprob) \<Longrightarrow> accept_test R newlnprob lnprob r = (True, r)"
  by (cases newlnprob; cases lnprob) (simp_all add: accept_test_def)

text \<open>
  C1. A candidate whose log-density equals the current one is not accepted, although
  \<open>delta >= 0\<close>: on the constant log-density the candidate \<open>[1]\<close> of the first step
  from \<open>[0]\<close> is rejected, the step yields \<open>[0]\<close> again and \<open>accepted\<close> stays 0.
  (\<open>accept_test_uphill\<close>: a candidate with a strictly greater log-density is accepted
  without a draw.)
\<close>

theorem tie_is_rejected:
  "propose demo_rng demo_flat [0] = ([1], 1)
   \<and> fge (fsub (get_lnprob demo_flat [1]) (get_lnprob demo_flat [0])) (Fin 0)
   \<and> accept_test demo_rng (get_lnprob demo_flat [1]) (get_lnprob demo_flat [0]) 1 = (False, 1)
   \<and> fst (run demo_rng (Some [0]) 1 None PyNone 1 True demo_flat) = Inr ([0], Fin 0, PyState 1)
   \<and> accepted (snd (run demo_rng (Some [0]) 1 None PyNone 1 True demo_flat)) = 0
   \<and> u_chain (snd (run demo_rng (Some [0]) 1 None PyNone 1 True demo_flat)) = [[0]]"
  by (simp add: demo_defs step_defs)




subsection \<open>Thinning\<close>

text \<open>
  C2. A thinned run does not always store its rows. On a new sampler, \<open>run\<close> with
  \<open>N = 3\<close> and \<open>thin = 2\<close> appends \<open>floor(3/2) = 1\<close> row and then raises IndexError
  at step index 2, whose row 1 does not exist. And after a first \<open>run\<close> with \<open>N = 2\<close>
  and \<open>thin = 2\<close>, which succeeds, a second one raises IndexError at its step index 0:
  the row index starts from the iteration counter (2), not from the rows stored (1).
\<close>

theorem thinned_run_overruns_chain:
  "fst (run demo_rng (Some [0]) 3 None PyNone 2 True demo_up) = Inl IndexError
   \<and> length (u_chain (snd (run demo_rng (Some [0]) 3 None PyNone 2 True demo_up))) = 1
   \<and> iterations (snd (run demo_rng (Some [0]) 3 None PyNone 2 True demo_up)) = 3
   \<and> fst (run demo_rng (Some [0]) 2 None PyNone 2 True demo_up) = Inr ([2], Fin 2, PyState 2)
   \<and> fst (run demo_rng None 2 None PyNone 2 True
          (snd (run demo_rng (Some [0]) 2 None PyNone 2 True demo_up))) = Inl IndexError"
  by (simp add: demo_defs step_defs)

subsection \<open>Chain and log-probabilities\<close>

lemma store_row_lengths:
  "length (u_chain (snd (store_row fr s))) = length (u_chain s)
   \<and> length (u_lnprob (snd (store_row fr s))) = length (u_lnprob s)"
  by (simp add: store_row_def Let_def split: option.splits)

lemma sample_step_lengths:
  "length (u_chain (snd (sample_step R fr s))) = length (u_chain s)
   \<and> length (u_lnprob (snd (sample_step R fr s))) = length (u_lnprob s)"
proof -
  obtain q r1 where q: "propose R s (l_p fr) = (q, r1)"
    by (cases "propose R s (l_p fr)")
  obtain acc r2 where a: "accept_test R (get_lnprob s q) (l_lnprob fr) r1 = (acc, r2)"
    by (cases "accept_test R (get_lnprob s q) (l_lnprob fr) r1")
  show ?thesis
    unfolding sample_step_state [OF q a] by (simp add: store_row_lengths)
qed

lemma sample_enter_parity:
  "parity s \<Longrightarrow> parity (snd (sample_enter R p lnprob rstate thin store_chain n s))"
  by (cases rstate)
     (simp_all add: parity_def sample_enter_def random_state_set_def Let_def)

lemma sample_loop_parity:
  "parity s \<Longrightarrow> parity (snd (snd (sample_loop R fr s)))"
  using sample_step_lengths [of R fr s]
  by (auto simp: parity_def sample_loop_def split: prod.splits sum.splits)

lemma gen_next_parity:
  "parity s \<Longrightarrow> parity (snd (snd (gen_next R g s)))"
proof (cases g)
  case (Created p lnprob rstate thin store_chain n)
  assume "parity s"
  then have "parity (snd (sample_enter R p lnprob rstate thin store_chain n s))"
    by (rule sample_enter_parity)
  then show ?thesis
    using Created sample_loop_parity
    by (auto split: prod.splits sum.splits)
next
  case (Suspended fr)
  assume "parity s"
  then show ?thesis using Suspended by (simp add: sample_loop_parity)
next
  case Closed
  assume "parity s"
  then show ?thesis using Closed by simp
qed

lemma for_results_parity:
  "parity s \<Longrightarrow> parity (snd (for_results R results g s))"
proof (induction R results g s rule: for_results.induct)
  case (1 R results g s)
  obtain out g' s' where n: "gen_next R g s = (out, g', s')"
    by (cases "gen_next R g s")
  have p': "parity s'"
    using gen_next_parity [OF "1.prems", of R g] n by simp
  show ?case
  proof (cases out)
    case (Inl e)
    then show ?thesis using n p' by (simp add: for_results.simps [of R results g s])
  next
    case (Inr yo)
    show ?thesis
    proof (cases yo)
      case None
      then show ?thesis using n p' Inr by (simp add: for_results.simps [of R results g s])
    next
      case (Some y)
      have "parity (snd (for_results R (Some y) g' s'))"
        using "1.IH" [OF n [symmetric] _ _ _ p'] Inr Some
        by simp
      then show ?thesis using n Inr Some by (simp add: for_results.simps [of R results g s])
    qed
  qed
qed

lemma run_from_parity:
  assumes "parity s"
  shows "parity (snd (case for_results R None g s of
             (Inl e, s') \<Rightarrow> (Inl e, s')
           | (Inr None, s') \<Rightarrow> (Inl UnboundLocalError, s')
           | (Inr (Some results), s') \<Rightarrow> (Inr results, s'\<lparr>u_last_run := Some results\<rparr>)))"
proof -
  obtain out s' where f: "for_results R None g s = (out, s')"
    by (cases "for_results R None g s")
  have "parity s'"
    using for_results_parity [OF assms, of R None g] f by simp
  then show ?thesis
    using f by (auto simp: parity_def split: sum.splits option.splits)
qed

lemma run_parity:
  assumes "parity s"
  shows "parity (snd (run R p0 N lnprob0 rstate0 thin store_chain s))"
proof (cases "p0 = None \<and> u_last_run s = None")
  case True
  then show ?thesis using assms by (simp add: run_def)
next
  case False
  then show ?thesis
    using run_from_parity [OF assms]
    by (cases p0; cases "u_last_run s") (auto simp: run_def simp del: split_paired_All)
qed

text \<open>
  C8. The chain and the log-probabilities have the same length in a new sampler and
  after \<open>reset\<close>, and every \<open>next\<close> on a generator of \<open>sample\<close> and every \<open>run\<close> keep
  them so, for all values of \<open>thin\<close> and \<open>store_chain\<close> and also when the call raises.
\<close>

theorem chain_lnprob_parity:
  "length (u_chain (init c d f a k r0)) = length (u_lnprob (init c d f a k r0))
   \<and> length (u_chain (reset s0)) = length (u_lnprob (reset s0))
   \<and> (length (u_chain s) = length (u_lnprob s) \<longrightarrow>
        length (u_chain (snd (snd (gen_next R g s)))) = length (u_lnprob (snd (snd (gen_next R g s))))
      \<and> length (u_chain (snd (run R p0 N lnprob0 rstate0 thin store_chain s)))
          = length (u_lnprob (snd (run R p0 N lnprob0 rstate0 thin store_chain s))))"
  using gen_next_parity [of s R g] run_parity [of s R p0 N lnprob0 rstate0 thin store_chain]
  by (simp add: parity_def init_def reset_def)

theorem chain_lnprob_parity_witness:
  "length (u_chain demo_up) = length (u_lnprob demo_up)
   \<and> length (u_chain (snd (run demo_rng (Some [0]) 3 None PyNone 2 True demo_up))) = 1
   \<and> length (u_lnprob (snd (run demo_rng (Some [0]) 3 None PyNone 2 True demo_up))) = 1"
proof -
  have h: "length (u_chain demo_up) = length (u_lnprob demo_up)"
    by (simp add: demo_defs)
  have c: "length (u_chain (snd (run demo_rng (Some [0]) 3 None PyNone 2 True demo_up))) = 1"
    by (simp add: demo_defs step_defs)
  from chain_lnprob_parity [of "Scalar 1" 1 "\<lambda>p a k. Fin 0" "()" "()" "0::nat" demo_up demo_up
      demo_rng Closed "Some [0]" 3 None PyNone 2 True] h c
  show ?thesis by simp
qed

subsection \<open>Resuming a run\<close>

lemma sample_step_yield:
  assumes "sample_step R fr s = (Inr (fr', y), s')"
  shows "y = (l_p fr', l_lnprob fr', random_state s')"
  using assms
  by (auto simp: sample_step_def Let_def split: prod.splits sum.splits if_splits)

lemma for_results_Suspended:
  "for_results R results (Suspended fr) s = drive R results (fr\<lparr>l_i := l_i fr + 1\<rparr>) s"
  by (simp add: for_results.simps [of R results "Suspended fr" s] drive_def)

lemma for_results_Created:
  "for_results R results (Created p lnprob rstate thin store_chain n) s =
     (case sample_enter R p lnprob rstate thin store_chain n s of
        (Inl e, s') \<Rightarrow> (Inl e, s')
      | (Inr fr, s') \<Rightarrow> drive R results fr s')"
  by (simp add: for_results.simps [of R results "Created p lnprob rstate thin store_chain n" s]
      drive_def split: prod.splits sum.splits)

lemma drive_steps:
  "n = nat (l_iterations fr - int (l_i fr)) \<Longrightarrow>
   drive R results fr s =
     (case steps R n fr s of
        (Inl e, s') \<Rightarrow> (Inl e, s')
      | (Inr fr', s') \<Rightarrow>
          (Inr (if n = 0 then results else Some (l_p fr', l_lnprob fr', random_state s')), s'))"
proof (induction n arbitrary: fr s results)
  case 0
  then have "\<not> int (l_i fr) < l_iterations fr" by simp
  then show ?case by (simp add: drive_def sample_loop_def)
next
  case (Suc n)
  then have lt: "int (l_i fr) < l_iterations fr" by linarith
  obtain out s' where st: "sample_step R fr s = (out, s')"
    by (cases "sample_step R fr s")
  show ?case
  proof (cases out)
    case (Inl e)
    then show ?thesis using st lt by (simp add: drive_def sample_loop_def)
  next
    case (Inr b)
    obtain fr' y where b: "b = (fr', y)" by (cases b)
    have st': "sample_step R fr s = (Inr (fr', y), s')" using st Inr b by simp
    have fr': "l_i fr' = l_i fr" "l_iterations fr' = l_iterations fr"
      using sample_step_frame [OF st'] by simp_all
    have y: "y = (l_p fr', l_lnprob fr', random_state s')"
      by (rule sample_step_yield [OF st'])
    have n: "n = nat (l_iterations (fr'\<lparr>l_i := l_i fr' + 1\<rparr>) - int (l_i (fr'\<lparr>l_i := l_i fr' + 1\<rparr>)))"
      using Suc.prems fr' by simp
    have "drive R results fr s = drive R (Some y) (fr'\<lparr>l_i := l_i fr' + 1\<rparr>) s'"
      using st' lt by (simp add: drive_def [of R results fr s] sample_loop_def for_results_Suspended)
    also have "\<dots> = (case steps R n (fr'\<lparr>l_i := l_i fr' + 1\<rparr>) s' of
        (Inl e, s'') \<Rightarrow> (Inl e, s'')
      | (Inr fr'', s'') \<Rightarrow>
          (Inr (if n = 0 then Some y else Some (l_p fr'', l_lnprob fr'', random_state s'')), s''))"
      by (rule Suc.IH [OF n])
    also have "\<dots> = (case steps R (Suc n) fr s of
        (Inl e, s') \<Rightarrow> (Inl e, s')
      | (Inr fr', s') \<Rightarrow>
          (Inr (if Suc n = 0 then results else Some (l_p fr', l_lnprob fr', random_state s')), s'))"
      using st' y by (cases n) (auto split: prod.splits sum.splits)
    finally show ?thesis .
  qed
qed

lemma int_truediv_one [simp]: "int_truediv n 1 = n"
  by (simp add: int_truediv_def mult_sgn_abs)

lemma store_row_thin1:
  assumes "l_thin fr = 1" "l_store_chain fr"
    and "l_i0 fr + l_i fr < length (u_chain s)" "l_i0 fr + l_i fr < length (u_lnprob s)"
  shows "store_row fr s =
     (Inr (), s\<lparr>u_chain := (u_chain s)[l_i0 fr + l_i fr := l_p fr],
               u_lnprob := (u_lnprob s)[l_i0 fr + l_i fr := l_lnprob fr]\<rparr>)"
  using assms by (simp add: store_row_def Let_def np_index_def nat_int_add)

text \<open>One step in the default configuration, on rows that exist.\<close>

lemma sample_step_thin1:
  assumes "l_thin fr = 1" "l_store_chain fr"
    and "l_i0 fr + l_i fr < length (u_chain s)" "l_i0 fr + l_i fr < length (u_lnprob s)"
    and q: "propose R s (l_p fr) = (q, r1)"
    and a: "accept_test R (get_lnprob s q) (l_lnprob fr) r1 = (acc, r2)"
    and fr1: "fr1 = (if acc then fr\<lparr>l_p := q, l_lnprob := get_lnprob s q\<rparr> else fr)"
  shows "sample_step R fr s =
     (Inr (fr1, (l_p fr1, l_lnprob fr1, PyState r2)),
      s\<lparr>iterations := iterations s + 1, u_random := r2,
        accepted := (if acc then accepted s + 1 else accepted s),
        u_chain := (u_chain s)[l_i0 fr + l_i fr := l_p fr1],
        u_lnprob := (u_lnprob s)[l_i0 fr + l_i fr := l_lnprob fr1]\<rparr>)"
proof -
  let ?s4 = "s\<lparr>iterations := iterations s + 1, u_random := r2,
        accepted := (if acc then accepted s + 1 else accepted s)\<rparr>"
  have sr: "store_row fr1 ?s4 =
     (Inr (), ?s4\<lparr>u_chain := (u_chain ?s4)[l_i0 fr1 + l_i fr1 := l_p fr1],
               u_lnprob := (u_lnprob ?s4)[l_i0 fr1 + l_i fr1 := l_lnprob fr1]\<rparr>)"
    by (rule store_row_thin1) (use assms in \<open>auto\<close>)
  have f: "l_i0 fr1 = l_i0 fr" "l_i fr1 = l_i fr" using fr1 by auto
  show ?thesis
  proof (cases acc)
    case True
    then show ?thesis
      using q a sr f fr1
      by (simp add: sample_step_def Let_def random_state_def get_state_def)
  next
    case False
    then show ?thesis
      using q a sr f fr1
      by (simp add: sample_step_def Let_def random_state_def get_state_def)
  qed
qed

lemma accept_test_cases:
  obtains acc r2 where "accept_test R newlnprob lnprob r = (acc, r2)"
  by (cases "accept_test R newlnprob lnprob r")

lemma steps_sim:
  assumes "l_thin fr = 1" "l_store_chain fr" "l_thin fr' = 1" "l_store_chain fr'"
    and "l_p fr' = l_p fr" "l_lnprob fr' = l_lnprob fr"
    and "l_i0 fr' + l_i fr' = l_i0 fr + l_i fr"
    and "l_i0 fr + l_i fr + n \<le> length (u_chain s)"
    and "l_i0 fr + l_i fr + n \<le> length (u_lnprob s)"
  shows "\<exists>fn sn. steps R n fr s = (Inr fn, sn)
     \<and> steps R n fr' (s\<lparr>u_chain := u_chain s @ zc, u_lnprob := u_lnprob s @ zl, u_last_run := x\<rparr>)
        = (Inr (fr'\<lparr>l_p := l_p fn, l_lnprob := l_lnprob fn, l_i := l_i fr' + n\<rparr>),
           sn\<lparr>u_chain := u_chain sn @ zc, u_lnprob := u_lnprob sn @ zl, u_last_run := x\<rparr>)
     \<and> length (u_chain sn) = length (u_chain s) \<and> length (u_lnprob sn) = length (u_lnprob s)
     \<and> iterations sn = iterations s + n \<and> u_last_run sn = u_last_run s
     \<and> dim sn = dim s"
  using assms
proof (induction n arbitrary: fr fr' s)
  case 0
  have "fr'\<lparr>l_p := l_p fr, l_lnprob := l_lnprob fr, l_i := l_i fr'\<rparr> = fr'"
    using "0.prems"(5,6) by (metis frame.update_convs(1,2,7) frame.surjective frame.simps(8,9,14))
  then show ?case by simp
next
  case (Suc n)
  let ?k = "l_i0 fr + l_i fr"
  let ?s' = "s\<lparr>u_chain := u_chain s @ zc, u_lnprob := u_lnprob s @ zl, u_last_run := x\<rparr>"
  have k: "?k < length (u_chain s)" "?k < length (u_lnprob s)"
    using Suc.prems by simp_all
  obtain q r1 where q: "propose R s (l_p fr) = (q, r1)"
    by (cases "propose R s (l_p fr)")
  obtain acc r2 where a: "accept_test R (get_lnprob s q) (l_lnprob fr) r1 = (acc, r2)"
    by (rule accept_test_cases)
  define fr1 where "fr1 = (if acc then fr\<lparr>l_p := q, l_lnprob := get_lnprob s q\<rparr> else fr)"
  define fr1' where "fr1' = (if acc then fr'\<lparr>l_p := q, l_lnprob := get_lnprob s q\<rparr> else fr')"
  define s1 where "s1 = s\<lparr>iterations := iterations s + 1, u_random := r2,
        accepted := (if acc then accepted s + 1 else accepted s),
        u_chain := (u_chain s)[?k := l_p fr1],
        u_lnprob := (u_lnprob s)[?k := l_lnprob fr1]\<rparr>"
  have st: "sample_step R fr s = (Inr (fr1, (l_p fr1, l_lnprob fr1, PyState r2)), s1)"
    unfolding s1_def
    by (rule sample_step_thin1 [OF Suc.prems(1,2) k q a fr1_def])
  have q': "propose R ?s' (l_p fr') = (q, r1)"
    using q Suc.prems(5) by simp
  have a': "accept_test R (get_lnprob ?s' q) (l_lnprob fr') r1 = (acc, r2)"
    using a Suc.prems(6) by simp
  have f1: "fr1' = (if acc then fr'\<lparr>l_p := q, l_lnprob := get_lnprob ?s' q\<rparr> else fr')"
    by (simp add: fr1'_def)
  have k': "l_i0 fr' + l_i fr' < length (u_chain ?s')" "l_i0 fr' + l_i fr' < length (u_lnprob ?s')"
    using k Suc.prems(7) by simp_all
  have pl: "l_p fr1' = l_p fr1" "l_lnprob fr1' = l_lnprob fr1"
    using Suc.prems(5,6) by (simp_all add: fr1_def fr1'_def)
  have st': "sample_step R fr' ?s' = (Inr (fr1', (l_p fr1', l_lnprob fr1', PyState r2)),
       s1\<lparr>u_chain := u_chain s1 @ zc, u_lnprob := u_lnprob s1 @ zl, u_last_run := x\<rparr>)"
    unfolding sample_step_thin1 [OF Suc.prems(3,4) k' q' a' f1]
    using k Suc.prems(7) pl by (simp add: s1_def list_update_append1)
  let ?g = "fr1\<lparr>l_i := l_i fr1 + 1\<rparr>" and ?g' = "fr1'\<lparr>l_i := l_i fr1' + 1\<rparr>"
  have fs: "l_thin fr1 = 1" "l_store_chain fr1" "l_thin fr1' = 1" "l_store_chain fr1'"
    "l_i0 fr1 = l_i0 fr" "l_i fr1 = l_i fr" "l_i0 fr1' = l_i0 fr'" "l_i fr1' = l_i fr'"
    using Suc.prems(1-4) by (simp_all add: fr1_def fr1'_def)
  have "\<exists>fn sn. steps R n ?g s1 = (Inr fn, sn)
     \<and> steps R n ?g' (s1\<lparr>u_chain := u_chain s1 @ zc, u_lnprob := u_lnprob s1 @ zl, u_last_run := x\<rparr>)
        = (Inr (?g'\<lparr>l_p := l_p fn, l_lnprob := l_lnprob fn, l_i := l_i ?g' + n\<rparr>),
           sn\<lparr>u_chain := u_chain sn @ zc, u_lnprob := u_lnprob sn @ zl, u_last_run := x\<rparr>)
     \<and> length (u_chain sn) = length (u_chain s1) \<and> length (u_lnprob sn) = length (u_lnprob s1)
     \<and> iterations sn = iterations s1 + n \<and> u_last_run sn = u_last_run s1
     \<and> dim sn = dim s1"
  proof (rule Suc.IH)
    show "l_i0 ?g' + l_i ?g' = l_i0 ?g + l_i ?g"
      using fs Suc.prems(7) by simp
    show "l_i0 ?g + l_i ?g + n \<le> length (u_chain s1)"
      using fs Suc.prems(8) by (simp add: s1_def)
    show "l_i0 ?g + l_i ?g + n \<le> length (u_lnprob s1)"
      using fs Suc.prems(9) by (simp add: s1_def)
  qed (use fs pl in simp_all)
  then obtain fn sn where
    A: "steps R n ?g s1 = (Inr fn, sn)"
    and B: "steps R n ?g' (s1\<lparr>u_chain := u_chain s1 @ zc, u_lnprob := u_lnprob s1 @ zl, u_last_run := x\<rparr>)
        = (Inr (?g'\<lparr>l_p := l_p fn, l_lnprob := l_lnprob fn, l_i := l_i ?g' + n\<rparr>),
           sn\<lparr>u_chain := u_chain sn @ zc, u_lnprob := u_lnprob sn @ zl, u_last_run := x\<rparr>)"
    and C: "length (u_chain sn) = length (u_chain s1)" "length (u_lnprob sn) = length (u_lnprob s1)"
      "iterations sn = iterations s1 + n" "u_last_run sn = u_last_run s1" "dim sn = dim s1"
    by blast
  have g': "?g'\<lparr>l_p := l_p fn, l_lnprob := l_lnprob fn, l_i := l_i ?g' + n\<rparr>
      = fr'\<lparr>l_p := l_p fn, l_lnprob := l_lnprob fn, l_i := l_i fr' + Suc n\<rparr>"
    by (simp add: fr1'_def)
  have "steps R (Suc n) fr s = (Inr fn, sn)"
    using st A by simp
  moreover have "steps R (Suc n) fr' ?s'
        = (Inr (fr'\<lparr>l_p := l_p fn, l_lnprob := l_lnprob fn, l_i := l_i fr' + Suc n\<rparr>),
           sn\<lparr>u_chain := u_chain sn @ zc, u_lnprob := u_lnprob sn @ zl, u_last_run := x\<rparr>)"
    using st' B g' by simp
  moreover have "length (u_chain sn) = length (u_chain s)" "length (u_lnprob sn) = length (u_lnprob s)"
    "iterations sn = iterations s + Suc n" "u_last_run sn = u_last_run s" "dim sn = dim s"
    using C by (simp_all add: s1_def)
  ultimately show ?case by blast
qed

lemma steps_add:
  "steps R (n + m) fr s =
     (case steps R n fr s of (Inl e, s') \<Rightarrow> (Inl e, s') | (Inr fr1, s1) \<Rightarrow> steps R m fr1 s1)"
  by (induction n arbitrary: fr s) (auto split: prod.splits sum.splits)

lemma finish_steps:
  assumes e: "sample_enter R p lnprob rstate thin sc N s = (Inr F, B)"
    and N: "0 < N"
    and st: "steps R (nat N) F B = (Inr fn, sn)"
  shows "(case for_results R None (sample p lnprob rstate thin sc N) s of
             (Inl e, s') \<Rightarrow> (Inl e, s')
           | (Inr None, s') \<Rightarrow> (Inl UnboundLocalError, s')
           | (Inr (Some results), s') \<Rightarrow> (Inr results, s'\<lparr>u_last_run := Some results\<rparr>))
         = (Inr (l_p fn, l_lnprob fn, random_state sn),
            sn\<lparr>u_last_run := Some (l_p fn, l_lnprob fn, random_state sn)\<rparr>)"
proof -
  have n: "nat N = nat (l_iterations F - int (l_i F))"
    using sample_enter_frame [OF e] by simp
  have "nat N \<noteq> 0" using N by simp
  then show ?thesis
    using st by (simp add: sample_def for_results_Created e drive_steps [OF n])
qed

lemma sample_enter_thin1:
  assumes "0 \<le> N" and "random_state_set R rstate s = Inr t"
  shows "sample_enter R p lnprob rstate 1 True N s =
     (Inr \<lparr>l_p = p, l_lnprob = (case lnprob of None \<Rightarrow> get_lnprob t p | Some l \<Rightarrow> l),
           l_thin = 1, l_store_chain = True, l_iterations = N, l_i0 = iterations t, l_i = 0\<rparr>,
      t\<lparr>u_chain := u_chain t @ replicate (nat N) (replicate (dim t) 0),
        u_lnprob := u_lnprob t @ replicate (nat N) (Fin 0)\<rparr>)"
  using assms by (simp add: sample_enter_def Let_def)

lemma random_state_set_eq:
  "random_state_set R rstate s = Inr (s\<lparr>u_random := snd (set_state R rstate (u_random s))\<rparr>)"
  by (simp add: random_state_set_def split: prod.splits option.splits)

lemma random_state_set_cases:
  obtains r where "random_state_set R rstate s = Inr (s\<lparr>u_random := r\<rparr>)"
  using random_state_set_eq [of R rstate s] by (rule that)

text \<open>
  Resuming in the default configuration (\<open>thin = 1\<close>, \<open>store_chain\<close>), from any sampler
  whose two buffers have at least \<open>iterations\<close> rows: both ways succeed, return the same
  triple and leave the same sampler, chain and log-probabilities included.
\<close>

lemma run_resume_aligned:
  fixes s :: "('r, 'a, 'k) sampler"
  assumes N1: "0 < N1" and N2: "0 < N2"
    and al: "iterations s \<le> length (u_chain s)" "iterations s \<le> length (u_lnprob s)"
  shows "\<exists>res1 s1 res s2.
      run R (Some p0) N1 lnprob0 rstate0 1 True s = (Inr res1, s1)
    \<and> run R None N2 None PyNone 1 True s1 = (Inr res, s2)
    \<and> run R (Some p0) (N1 + N2) lnprob0 rstate0 1 True s = (Inr res, s2)"
proof -
  obtain r where rs: "random_state_set R rstate0 s = Inr (s\<lparr>u_random := r\<rparr>)"
    by (rule random_state_set_cases)
  let ?t = "s\<lparr>u_random := r\<rparr>"
  define l0 where "l0 = (case lnprob0 of None \<Rightarrow> get_lnprob ?t p0 | Some l \<Rightarrow> l)"
  define z where "z = replicate (dim s) (0::real)"
  define F where "F = (\<lambda>N. \<lparr>l_p = p0, l_lnprob = l0, l_thin = 1, l_store_chain = True,
      l_iterations = N, l_i0 = iterations s, l_i = 0\<rparr>)"
  define B where "B = (\<lambda>n. ?t\<lparr>u_chain := u_chain s @ replicate n z,
      u_lnprob := u_lnprob s @ replicate n (Fin 0)\<rparr>)"
  have enter: "sample_enter R p0 lnprob0 rstate0 1 True N s = (Inr (F N), B (nat N))" if "0 \<le> N" for N
    using sample_enter_thin1 [OF that rs, of p0 lnprob0]
    by (simp add: F_def B_def l0_def z_def)
  let ?n1 = "nat N1" and ?n2 = "nat N2"
  have n12: "nat (N1 + N2) = ?n1 + ?n2" using N1 N2 by (simp add: nat_add_distrib)
  have B12: "B (?n1 + ?n2) = (B ?n1)\<lparr>u_chain := u_chain (B ?n1) @ replicate ?n2 z,
      u_lnprob := u_lnprob (B ?n1) @ replicate ?n2 (Fin 0), u_last_run := u_last_run s\<rparr>"
    by (simp add: B_def replicate_add)
  \<comment> \<open>the first \<open>N1\<close> steps, on the short and on the long buffers\<close>
  have "\<exists>fn sn. steps R ?n1 (F N1) (B ?n1) = (Inr fn, sn)
     \<and> steps R ?n1 (F (N1 + N2)) ((B ?n1)\<lparr>u_chain := u_chain (B ?n1) @ replicate ?n2 z,
            u_lnprob := u_lnprob (B ?n1) @ replicate ?n2 (Fin 0), u_last_run := u_last_run s\<rparr>)
        = (Inr ((F (N1 + N2))\<lparr>l_p := l_p fn, l_lnprob := l_lnprob fn, l_i := l_i (F (N1 + N2)) + ?n1\<rparr>),
           sn\<lparr>u_chain := u_chain sn @ replicate ?n2 z,
              u_lnprob := u_lnprob sn @ replicate ?n2 (Fin 0), u_last_run := u_last_run s\<rparr>)
     \<and> length (u_chain sn) = length (u_chain (B ?n1))
     \<and> length (u_lnprob sn) = length (u_lnprob (B ?n1))
     \<and> iterations sn = iterations (B ?n1) + ?n1 \<and> u_last_run sn = u_last_run (B ?n1)
     \<and> dim sn = dim (B ?n1)"
    by (rule steps_sim) (use al in \<open>simp_all add: F_def B_def\<close>)
  then obtain fn sn where
    a1: "steps R ?n1 (F N1) (B ?n1) = (Inr fn, sn)"
    and a2: "steps R ?n1 (F (N1 + N2)) (B (?n1 + ?n2))
        = (Inr ((F (N1 + N2))\<lparr>l_p := l_p fn, l_lnprob := l_lnprob fn, l_i := ?n1\<rparr>),
           sn\<lparr>u_chain := u_chain sn @ replicate ?n2 z,
              u_lnprob := u_lnprob sn @ replicate ?n2 (Fin 0), u_last_run := u_last_run s\<rparr>)"
    and a3: "length (u_chain sn) = length (u_chain s) + ?n1"
      "length (u_lnprob sn) = length (u_lnprob s) + ?n1"
      "iterations sn = iterations s + ?n1" "dim sn = dim s"
    unfolding B12 by (auto simp: F_def B_def)
  define res1 where "res1 = (l_p fn, l_lnprob fn, random_state sn)"
  define T where "T = sn\<lparr>u_last_run := Some res1\<rparr>"
  have run1: "run R (Some p0) N1 lnprob0 rstate0 1 True s = (Inr res1, T)"
    using finish_steps [OF enter N1 a1] N1 by (simp add: run_def res1_def T_def)
  \<comment> \<open>the second call starts from the checkpoint\<close>
  define Fm where "Fm = (F (N1 + N2))\<lparr>l_p := l_p fn, l_lnprob := l_lnprob fn, l_i := ?n1\<rparr>"
  define U where "U = sn\<lparr>u_chain := u_chain sn @ replicate ?n2 z,
              u_lnprob := u_lnprob sn @ replicate ?n2 (Fin 0), u_last_run := u_last_run s\<rparr>"
  define G where "G = \<lparr>l_p = l_p fn, l_lnprob = l_lnprob fn, l_thin = 1, l_store_chain = True,
      l_iterations = N2, l_i0 = iterations s + ?n1, l_i = 0\<rparr>"
  have rsT: "random_state_set R (random_state sn) T = Inr T"
    by (simp add: random_state_set_def random_state_def get_state_def T_def)
  have enter2: "sample_enter R (l_p fn) (Some (l_lnprob fn)) (random_state sn) 1 True N2 T
      = (Inr G, U\<lparr>u_chain := u_chain U @ [], u_lnprob := u_lnprob U @ [], u_last_run := Some res1\<rparr>)"
    using sample_enter_thin1 [OF _ rsT, of N2 "l_p fn" "Some (l_lnprob fn)"] N2 a3
    by (simp add: G_def U_def T_def z_def)
  have "\<exists>fm sm. steps R ?n2 Fm U = (Inr fm, sm)
     \<and> steps R ?n2 G (U\<lparr>u_chain := u_chain U @ [], u_lnprob := u_lnprob U @ [], u_last_run := Some res1\<rparr>)
        = (Inr (G\<lparr>l_p := l_p fm, l_lnprob := l_lnprob fm, l_i := l_i G + ?n2\<rparr>),
           sm\<lparr>u_chain := u_chain sm @ [], u_lnprob := u_lnprob sm @ [], u_last_run := Some res1\<rparr>)
     \<and> length (u_chain sm) = length (u_chain U)
     \<and> length (u_lnprob sm) = length (u_lnprob U)
     \<and> iterations sm = iterations U + ?n2 \<and> u_last_run sm = u_last_run U
     \<and> dim sm = dim U"
    by (rule steps_sim) (use al a3 in \<open>simp_all add: Fm_def F_def G_def U_def\<close>)
  then obtain fm sm where
    b1: "steps R ?n2 Fm U = (Inr fm, sm)"
    and b2: "steps R ?n2 G (U\<lparr>u_chain := u_chain U @ [], u_lnprob := u_lnprob U @ [], u_last_run := Some res1\<rparr>)
        = (Inr (G\<lparr>l_p := l_p fm, l_lnprob := l_lnprob fm, l_i := l_i G + ?n2\<rparr>),
           sm\<lparr>u_last_run := Some res1\<rparr>)"
    by auto
  define res where "res = (l_p fm, l_lnprob fm, random_state sm)"
  have run2: "run R None N2 None PyNone 1 True T = (Inr res, sm\<lparr>u_last_run := Some res\<rparr>)"
    using finish_steps [OF enter2 N2 b2]
    by (simp add: run_def T_def res1_def res_def random_state_def)
  have "steps R (?n1 + ?n2) (F (N1 + N2)) (B (?n1 + ?n2)) = (Inr fm, sm)"
    using a2 b1 by (simp add: steps_add Fm_def U_def)
  then have c: "steps R (nat (N1 + N2)) (F (N1 + N2)) (B (nat (N1 + N2))) = (Inr fm, sm)"
    by (simp add: n12)
  have N12: "0 < N1 + N2" using N1 N2 by simp
  have run12: "run R (Some p0) (N1 + N2) lnprob0 rstate0 1 True s
      = (Inr res, sm\<lparr>u_last_run := Some res\<rparr>)"
    using finish_steps [OF enter N12 c] N12 by (simp add: run_def res_def)
  show ?thesis using run1 run2 run12 by blast
qed

text \<open>
  The rows are needed: after a run that did not store, the iteration counter is ahead of
  the chain and a storing run raises IndexError at its first step.
\<close>

lemma stored_run_after_unstored_raises:
  "fst (run demo_rng (Some [0]) 2 None PyNone 1 False demo_up) = Inr ([2], Fin 2, PyState 2)
   \<and> fst (run demo_rng (Some [0]) 1 None PyNone 1 True
          (snd (run demo_rng (Some [0]) 2 None PyNone 1 False demo_up))) = Inl IndexError"
  by (simp add: demo_defs step_defs)

lemma yielded_Suspended:
  "yielded R (Suspended fr) s = yielded_loop R (fr\<lparr>l_i := l_i fr + 1\<rparr>) s"
  by (simp add: yielded.simps [of R "Suspended fr" s] yielded_loop_def)

lemma yielded_Created:
  "yielded R (Created p lnprob rstate thin store_chain n) s =
     (case sample_enter R p lnprob rstate thin store_chain n s of
        (Inl e, s') \<Rightarrow> ([], Some e, s')
      | (Inr fr, s') \<Rightarrow> yielded_loop R fr s')"
  by (simp add: yielded.simps [of R "Created p lnprob rstate thin store_chain n" s]
      yielded_loop_def split: prod.splits sum.splits)

text \<open>\<open>run\<close> keeps the last value of the sequence.\<close>

lemma for_results_yielded:
  "for_results R results g s =
     (case yielded R g s of
        (ys, Some e, t) \<Rightarrow> (Inl e, t)
      | (ys, None, t) \<Rightarrow> (Inr (if ys = [] then results else Some (last ys)), t))"
proof (induction R results g s rule: for_results.induct)
  case (1 R results g s)
  obtain out g1 s1 where n: "gen_next R g s = (out, g1, s1)"
    by (cases "gen_next R g s")
  show ?case
  proof (cases out)
    case (Inl e)
    then show ?thesis
      using n by (simp add: for_results.simps [of R results g s] yielded.simps [of R g s])
  next
    case (Inr o1)
    show ?thesis
    proof (cases o1)
      case None
      then show ?thesis
        using n Inr by (simp add: for_results.simps [of R results g s] yielded.simps [of R g s])
    next
      case (Some y)
      obtain zs e t where z: "yielded R g1 s1 = (zs, e, t)"
        by (cases "yielded R g1 s1")
      have "for_results R (Some y) g1 s1 =
         (case yielded R g1 s1 of
            (ys, Some e, t) \<Rightarrow> (Inl e, t)
          | (ys, None, t) \<Rightarrow> (Inr (if ys = [] then Some y else Some (last ys)), t))"
        using "1.IH" [OF n [symmetric]] Inr Some by simp
      then show ?thesis
        using n Inr Some z
        by (cases e)
           (simp_all add: for_results.simps [of R results g s] yielded.simps [of R g s])
    qed
  qed
qed

lemma yielded_loop_thin1:
  assumes "l_thin fr = 1" "l_store_chain fr"
    and "n = nat (l_iterations fr - int (l_i fr))"
    and "l_i0 fr + l_i fr + n \<le> length (u_chain s)"
    and "l_i0 fr + l_i fr + n \<le> length (u_lnprob s)"
  shows "\<exists>ys t. yielded_loop R fr s = (ys, None, t) \<and> length ys = n
     \<and> u_chain t = take (l_i0 fr + l_i fr) (u_chain s) @ map fst ys
          @ drop (l_i0 fr + l_i fr + n) (u_chain s)
     \<and> u_lnprob t = take (l_i0 fr + l_i fr) (u_lnprob s) @ map (\<lambda>y. fst (snd y)) ys
          @ drop (l_i0 fr + l_i fr + n) (u_lnprob s)
     \<and> iterations t = iterations s + n"
  using assms
proof (induction n arbitrary: fr s)
  case 0
  then have "\<not> int (l_i fr) < l_iterations fr" by simp
  then show ?case by (simp add: yielded_loop_def sample_loop_def)
next
  case (Suc n)
  let ?k = "l_i0 fr + l_i fr"
  have lt: "int (l_i fr) < l_iterations fr" using Suc.prems(3) by linarith
  have k: "?k < length (u_chain s)" "?k < length (u_lnprob s)"
    using Suc.prems by simp_all
  obtain q r1 where q: "propose R s (l_p fr) = (q, r1)"
    by (cases "propose R s (l_p fr)")
  obtain acc r2 where a: "accept_test R (get_lnprob s q) (l_lnprob fr) r1 = (acc, r2)"
    by (rule accept_test_cases)
  define fr1 where "fr1 = (if acc then fr\<lparr>l_p := q, l_lnprob := get_lnprob s q\<rparr> else fr)"
  define s1 where "s1 = s\<lparr>iterations := iterations s + 1, u_random := r2,
        accepted := (if acc then accepted s + 1 else accepted s),
        u_chain := (u_chain s)[?k := l_p fr1],
        u_lnprob := (u_lnprob s)[?k := l_lnprob fr1]\<rparr>"
  define y where "y = (l_p fr1, l_lnprob fr1, PyState r2)"
  have st: "sample_step R fr s = (Inr (fr1, y), s1)"
    unfolding s1_def y_def
    by (rule sample_step_thin1 [OF Suc.prems(1,2) k q a fr1_def])
  let ?g = "fr1\<lparr>l_i := l_i fr1 + 1\<rparr>"
  have fs: "l_thin fr1 = 1" "l_store_chain fr1" "l_i0 fr1 = l_i0 fr" "l_i fr1 = l_i fr"
    "l_iterations fr1 = l_iterations fr"
    using Suc.prems(1,2) by (simp_all add: fr1_def)
  have "\<exists>ys t. yielded_loop R ?g s1 = (ys, None, t) \<and> length ys = n
     \<and> u_chain t = take (l_i0 ?g + l_i ?g) (u_chain s1) @ map fst ys
          @ drop (l_i0 ?g + l_i ?g + n) (u_chain s1)
     \<and> u_lnprob t = take (l_i0 ?g + l_i ?g) (u_lnprob s1) @ map (\<lambda>y. fst (snd y)) ys
          @ drop (l_i0 ?g + l_i ?g + n) (u_lnprob s1)
     \<and> iterations t = iterations s1 + n"
  proof (rule Suc.IH)
    show "n = nat (l_iterations ?g - int (l_i ?g))" using Suc.prems(3) fs by simp
    show "l_i0 ?g + l_i ?g + n \<le> length (u_chain s1)" using Suc.prems(4) fs by (simp add: s1_def)
    show "l_i0 ?g + l_i ?g + n \<le> length (u_lnprob s1)" using Suc.prems(5) fs by (simp add: s1_def)
  qed (use fs in simp_all)
  then obtain ys t where
    A: "yielded_loop R ?g s1 = (ys, None, t)" "length ys = n"
    and C: "u_chain t = take (Suc ?k) (u_chain s1) @ map fst ys @ drop (Suc ?k + n) (u_chain s1)"
    and L: "u_lnprob t = take (Suc ?k) (u_lnprob s1) @ map (\<lambda>y. fst (snd y)) ys
          @ drop (Suc ?k + n) (u_lnprob s1)"
    and I: "iterations t = iterations s1 + n"
    using fs by auto
  have Y: "yielded_loop R fr s = (y # ys, None, t)"
    using st lt A(1) by (simp add: yielded_loop_def [of R fr s] sample_loop_def yielded_Suspended)
  have C': "u_chain t = take ?k (u_chain s) @ map fst (y # ys) @ drop (?k + Suc n) (u_chain s)"
    using C k by (simp add: s1_def y_def take_Suc_conv_app_nth)
  have L': "u_lnprob t = take ?k (u_lnprob s) @ map (\<lambda>y. fst (snd y)) (y # ys)
      @ drop (?k + Suc n) (u_lnprob s)"
    using L k by (simp add: s1_def y_def take_Suc_conv_app_nth)
  have "iterations t = iterations s + Suc n" using I by (simp add: s1_def)
  then show ?case using Y A(2) C' L' by simp
qed

text \<open>
  In the default configuration, on a sampler with exactly \<open>iterations\<close> rows, a step
  sequence of length \<open>N\<close> returns, and the rows it appends are the positions and the
  log-probabilities it yields, in order.
\<close>

lemma yielded_stored:
  assumes N: "0 \<le> N"
    and al: "iterations s = length (u_chain s)" "iterations s = length (u_lnprob s)"
  shows "\<exists>ys t. yielded R (sample p lnprob rstate 1 True N) s = (ys, None, t)
     \<and> length ys = nat N
     \<and> u_chain t = u_chain s @ map fst ys
     \<and> u_lnprob t = u_lnprob s @ map (\<lambda>y. fst (snd y)) ys
     \<and> iterations t = iterations s + nat N"
proof -
  obtain r where rs: "random_state_set R rstate s = Inr (s\<lparr>u_random := r\<rparr>)"
    by (rule random_state_set_cases)
  let ?t = "s\<lparr>u_random := r\<rparr>"
  define F where "F = \<lparr>l_p = p, l_lnprob = (case lnprob of None \<Rightarrow> get_lnprob ?t p | Some l \<Rightarrow> l),
      l_thin = 1, l_store_chain = True, l_iterations = N, l_i0 = iterations ?t, l_i = 0\<rparr>"
  define B where "B = ?t\<lparr>u_chain := u_chain ?t @ replicate (nat N) (replicate (dim ?t) 0),
      u_lnprob := u_lnprob ?t @ replicate (nat N) (Fin 0)\<rparr>"
  have e: "sample_enter R p lnprob rstate 1 True N s = (Inr F, B)"
    unfolding F_def B_def by (rule sample_enter_thin1 [OF N rs])
  have "\<exists>ys t. yielded_loop R F B = (ys, None, t) \<and> length ys = nat N
     \<and> u_chain t = take (l_i0 F + l_i F) (u_chain B) @ map fst ys
          @ drop (l_i0 F + l_i F + nat N) (u_chain B)
     \<and> u_lnprob t = take (l_i0 F + l_i F) (u_lnprob B) @ map (\<lambda>y. fst (snd y)) ys
          @ drop (l_i0 F + l_i F + nat N) (u_lnprob B)
     \<and> iterations t = iterations B + nat N"
    by (rule yielded_loop_thin1) (use al N in \<open>simp_all add: F_def B_def\<close>)
  then show ?thesis
    using al by (simp add: sample_def yielded_Created e) (simp add: F_def B_def)
qed

lemma run_yielded:
  "run R (Some p) N lnprob rstate thin store_chain s =
     (case yielded R (sample p lnprob rstate thin store_chain N) s of
        (ys, Some e, t) \<Rightarrow> (Inl e, t)
      | (ys, None, t) \<Rightarrow>
          (if ys = [] then (Inl UnboundLocalError, t)
           else (Inr (last ys), t\<lparr>u_last_run := Some (last ys)\<rparr>)))"
  by (simp add: run_def for_results_yielded split: prod.splits option.splits)

lemma run_checkpoint:
  assumes "u_last_run s = Some (p, l, r)"
  shows "run R None N None PyNone thin store_chain s = run R (Some p) N (Some l) r thin store_chain s"
  using assms by (simp add: run_def)

lemma resume_trajectory:
  fixes s :: "('r, 'a, 'k) sampler"
  assumes N1: "0 < N1" and N2: "0 < N2"
    and al: "iterations s = length (u_chain s)" "iterations s = length (u_lnprob s)"
  shows "\<exists>ys1 t1 ys2 t2 ys t.
      yielded R (sample p0 lnprob0 rstate0 1 True N1) s = (ys1, None, t1) \<and> ys1 \<noteq> []
    \<and> run R (Some p0) N1 lnprob0 rstate0 1 True s = (Inr (last ys1), t1\<lparr>u_last_run := Some (last ys1)\<rparr>)
    \<and> yielded R (sample (fst (last ys1)) (Some (fst (snd (last ys1)))) (snd (snd (last ys1)))
          1 True N2) (t1\<lparr>u_last_run := Some (last ys1)\<rparr>) = (ys2, None, t2)
    \<and> yielded R (sample p0 lnprob0 rstate0 1 True (N1 + N2)) s = (ys, None, t)
    \<and> map fst ys = map fst (ys1 @ ys2)
    \<and> map (\<lambda>y. fst (snd y)) ys = map (\<lambda>y. fst (snd y)) (ys1 @ ys2)
    \<and> u_chain t = u_chain s @ map fst ys
    \<and> u_lnprob t = u_lnprob s @ map (\<lambda>y. fst (snd y)) ys"
proof -
  obtain ys1 t1 where y1: "yielded R (sample p0 lnprob0 rstate0 1 True N1) s = (ys1, None, t1)"
    "length ys1 = nat N1" "u_chain t1 = u_chain s @ map fst ys1"
    "u_lnprob t1 = u_lnprob s @ map (\<lambda>y. fst (snd y)) ys1"
    "iterations t1 = iterations s + nat N1"
    using yielded_stored [OF _ al, of N1 R p0 lnprob0 rstate0] N1 by auto
  have ne1: "ys1 \<noteq> []" using y1(2) N1 by auto
  obtain p1 l1 r1 where last1: "last ys1 = (p1, l1, r1)" by (cases "last ys1")
  define T where "T = t1\<lparr>u_last_run := Some (last ys1)\<rparr>"
  have run1: "run R (Some p0) N1 lnprob0 rstate0 1 True s = (Inr (last ys1), T)"
    using y1(1) ne1 by (simp add: run_yielded T_def)
  have alT: "iterations T = length (u_chain T)" "iterations T = length (u_lnprob T)"
    using y1 al by (simp_all add: T_def)
  obtain ys2 t2 where y2: "yielded R (sample p1 (Some l1) r1 1 True N2) T = (ys2, None, t2)"
    "length ys2 = nat N2" "u_chain t2 = u_chain T @ map fst ys2"
    "u_lnprob t2 = u_lnprob T @ map (\<lambda>y. fst (snd y)) ys2"
    using yielded_stored [OF _ alT, of N2 R p1 "Some l1" r1] N2 by auto
  have ne2: "ys2 \<noteq> []" using y2(2) N2 by auto
  have run2: "run R None N2 None PyNone 1 True T = (Inr (last ys2), t2\<lparr>u_last_run := Some (last ys2)\<rparr>)"
    using y2(1) ne2 run_checkpoint [of T p1 l1 r1 R N2 1 True]
    by (simp add: run_yielded T_def last1)
  obtain ys t where y: "yielded R (sample p0 lnprob0 rstate0 1 True (N1 + N2)) s = (ys, None, t)"
    "length ys = nat (N1 + N2)" "u_chain t = u_chain s @ map fst ys"
    "u_lnprob t = u_lnprob s @ map (\<lambda>y. fst (snd y)) ys"
    using yielded_stored [OF _ al, of "N1 + N2" R p0 lnprob0 rstate0] N1 N2 by auto
  have ne: "ys \<noteq> []" using y(2) N1 N2 by auto
  have run12: "run R (Some p0) (N1 + N2) lnprob0 rstate0 1 True s
      = (Inr (last ys), t\<lparr>u_last_run := Some (last ys)\<rparr>)"
    using y(1) ne by (simp add: run_yielded)
  have le: "iterations s \<le> length (u_chain s)" "iterations s \<le> length (u_lnprob s)"
    using al by simp_all
  from run_resume_aligned [OF N1 N2 le, of R p0 lnprob0 rstate0]
  have "t2\<lparr>u_last_run := Some (last ys2)\<rparr> = t\<lparr>u_last_run := Some (last ys)\<rparr>"
    using run1 run2 run12 by auto
  then have "u_chain (t2\<lparr>u_last_run := Some (last ys2)\<rparr>) = u_chain (t\<lparr>u_last_run := Some (last ys)\<rparr>)"
    "u_lnprob (t2\<lparr>u_last_run := Some (last ys2)\<rparr>) = u_lnprob (t\<lparr>u_last_run := Some (last ys)\<rparr>)"
    by simp_all
  then have "u_chain t2 = u_chain t" "u_lnprob t2 = u_lnprob t"
    by simp_all
  then have "map fst ys = map fst (ys1 @ ys2)"
    "map (\<lambda>y. fst (snd y)) ys = map (\<lambda>y. fst (snd y)) (ys1 @ ys2)"
    using y(3,4) y2(3,4) y1(3,4) by (simp_all add: T_def)
  then show ?thesis
    using y1(1) ne1 run1 y2(1) y(1,3,4) last1 by (simp add: T_def)
qed

text \<open>
  C3. On a new or reset sampler, for every start position, every \<open>N1, N2 > 0\<close> and
  every generator state (the sampler's own, or one passed as \<open>rstate0\<close>):
  \<open>run(p0, N1)\<close> succeeds, \<open>run(None, N2)\<close> after it succeeds, and the two calls return
  the triple and leave the sampler (chain, log-probabilities, counters, generator,
  checkpoint) that the single call \<open>run(p0, N1 + N2)\<close> does. The positions and the
  log-probabilities that the two step sequences yield, one after the other, are those
  that the single sequence yields, and they are the rows of the chain and of the
  log-probabilities at the end.
\<close>

theorem run_resumes:
  assumes "0 < N1" and "0 < N2"
  shows "\<exists>res1 s1 res s2 ys1 ys2 ys.
      run R (Some p0) N1 lnprob0 rstate0 1 True (reset s0) = (Inr res1, s1)
    \<and> run R None N2 None PyNone 1 True s1 = (Inr res, s2)
    \<and> run R (Some p0) (N1 + N2) lnprob0 rstate0 1 True (reset s0) = (Inr res, s2)
    \<and> fst (yielded R (sample p0 lnprob0 rstate0 1 True N1) (reset s0)) = ys1
    \<and> fst (yielded R (sample (fst res1) (Some (fst (snd res1))) (snd (snd res1)) 1 True N2) s1) = ys2
    \<and> fst (yielded R (sample p0 lnprob0 rstate0 1 True (N1 + N2)) (reset s0)) = ys
    \<and> map fst ys = map fst (ys1 @ ys2)
    \<and> map (\<lambda>y. fst (snd y)) ys = map (\<lambda>y. fst (snd y)) (ys1 @ ys2)
    \<and> u_chain s2 = map fst ys \<and> u_lnprob s2 = map (\<lambda>y. fst (snd y)) ys"
proof -
  let ?s = "reset s0"
  have al: "iterations ?s = length (u_chain ?s)" "iterations ?s = length (u_lnprob ?s)"
    by (simp_all add: reset_def)
  have le: "iterations ?s \<le> length (u_chain ?s)" "iterations ?s \<le> length (u_lnprob ?s)"
    by (simp_all add: reset_def)
  obtain res1 s1 res s2 where r:
    "run R (Some p0) N1 lnprob0 rstate0 1 True ?s = (Inr res1, s1)"
    "run R None N2 None PyNone 1 True s1 = (Inr res, s2)"
    "run R (Some p0) (N1 + N2) lnprob0 rstate0 1 True ?s = (Inr res, s2)"
    using run_resume_aligned [OF assms le, of R p0 lnprob0 rstate0] by blast
  obtain ys1 t1 ys2 t2 ys t where y:
    "yielded R (sample p0 lnprob0 rstate0 1 True N1) ?s = (ys1, None, t1)" "ys1 \<noteq> []"
    "run R (Some p0) N1 lnprob0 rstate0 1 True ?s = (Inr (last ys1), t1\<lparr>u_last_run := Some (last ys1)\<rparr>)"
    "yielded R (sample (fst (last ys1)) (Some (fst (snd (last ys1)))) (snd (snd (last ys1)))
          1 True N2) (t1\<lparr>u_last_run := Some (last ys1)\<rparr>) = (ys2, None, t2)"
    "yielded R (sample p0 lnprob0 rstate0 1 True (N1 + N2)) ?s = (ys, None, t)"
    "map fst ys = map fst (ys1 @ ys2)"
    "map (\<lambda>y. fst (snd y)) ys = map (\<lambda>y. fst (snd y)) (ys1 @ ys2)"
    "u_chain t = u_chain ?s @ map fst ys"
    "u_lnprob t = u_lnprob ?s @ map (\<lambda>y. fst (snd y)) ys"
    using resume_trajectory [OF assms al, of R p0 lnprob0 rstate0] by blast
  have e1: "res1 = last ys1" "s1 = t1\<lparr>u_last_run := Some (last ys1)\<rparr>"
    using r(1) y(3) by auto
  have "ys \<noteq> []" using y(2,6) by auto
  then have "s2 = t\<lparr>u_last_run := Some (last ys)\<rparr>"
    using r(3) y(5) by (auto simp: run_yielded)
  then have c: "u_chain s2 = map fst ys" "u_lnprob s2 = map (\<lambda>y. fst (snd y)) ys"
    using y(8,9) by (simp_all add: reset_def)
  have "run R (Some p0) N1 lnprob0 rstate0 1 True ?s = (Inr res1, s1)
    \<and> run R None N2 None PyNone 1 True s1 = (Inr res, s2)
    \<and> run R (Some p0) (N1 + N2) lnprob0 rstate0 1 True ?s = (Inr res, s2)
    \<and> fst (yielded R (sample p0 lnprob0 rstate0 1 True N1) ?s) = ys1
    \<and> fst (yielded R (sample (fst res1) (Some (fst (snd res1))) (snd (snd res1)) 1 True N2) s1) = ys2
    \<and> fst (yielded R (sample p0 lnprob0 rstate0 1 True (N1 + N2)) ?s) = ys
    \<and> map fst ys = map fst (ys1 @ ys2)
    \<and> map (\<lambda>y. fst (snd y)) ys = map (\<lambda>y. fst (snd y)) (ys1 @ ys2)
    \<and> u_chain s2 = map fst ys \<and> u_lnprob s2 = map (\<lambda>y. fst (snd y)) ys"
    using r y(1,4,5,6,7) e1 c by simp
  then show ?thesis
    by (intro exI)
qed

theorem run_resumes_witness:
  "run demo_rng None 2 None PyNone 1 True
     (snd (run demo_rng (Some [0]) 2 None PyNone 1 True (reset demo_up)))
   = run demo_rng (Some [0]) 4 None PyNone 1 True (reset demo_up)
   \<and> fst (run demo_rng (Some [0]) 4 None PyNone 1 True (reset demo_up))
       = Inr ([4], Fin 4, PyState 4)"
proof -
  have "(0::int) < 2" by simp
  from run_resumes [OF this this, of demo_rng "[0]" None PyNone demo_up]
  obtain res1 s1 res s2 where
    "run demo_rng (Some [0]) 2 None PyNone 1 True (reset demo_up) = (Inr res1, s1)"
    "run demo_rng None 2 None PyNone 1 True s1 = (Inr res, s2)"
    "run demo_rng (Some [0]) (2 + 2) None PyNone 1 True (reset demo_up) = (Inr res, s2)"
    by blast
  then have "run demo_rng None 2 None PyNone 1 True
     (snd (run demo_rng (Some [0]) 2 None PyNone 1 True (reset demo_up)))
   = run demo_rng (Some [0]) 4 None PyNone 1 True (reset demo_up)"
    by simp
  moreover have "fst (run demo_rng (Some [0]) 4 None PyNone 1 True (reset demo_up))
       = Inr ([4], Fin 4, PyState 4)"
    by (simp add: demo_defs step_defs)
  ultimately show ?thesis by simp
qed

subsection \<open>Replaying from a snapshot\<close>

lemma gen_next_snapshot:
  "gen_next R (sample p lnprob (PyState r) thin store_chain n) (s\<lparr>u_random := r1\<rparr>)
   = gen_next R (sample p lnprob (PyState r) thin store_chain n) (s\<lparr>u_random := r\<rparr>)"
  by (simp add: sample_def sample_enter_def random_state_set_def Let_def)

lemma yielded_snapshot:
  "yielded R (sample p lnprob (PyState r) thin store_chain n) (s\<lparr>u_random := r1\<rparr>)
   = yielded R (sample p lnprob (PyState r) thin store_chain n) (s\<lparr>u_random := r\<rparr>)"
  unfolding yielded.simps [of R "sample p lnprob (PyState r) thin store_chain n" "s\<lparr>u_random := r1\<rparr>"]
    yielded.simps [of R "sample p lnprob (PyState r) thin store_chain n" "s\<lparr>u_random := r\<rparr>"]
    gen_next_snapshot [where ?r1.0 = r1]
  by (rule refl)

lemma for_results_snapshot:
  "for_results R res (sample p lnprob (PyState r) thin store_chain n) (s\<lparr>u_random := r1\<rparr>)
   = for_results R res (sample p lnprob (PyState r) thin store_chain n) (s\<lparr>u_random := r\<rparr>)"
  unfolding for_results.simps [of R res "sample p lnprob (PyState r) thin store_chain n" "s\<lparr>u_random := r1\<rparr>"]
    for_results.simps [of R res "sample p lnprob (PyState r) thin store_chain n" "s\<lparr>u_random := r\<rparr>"]
    gen_next_snapshot [where ?r1.0 = r1]
  by (rule refl)

lemma store_row_problem:
  "same_draws (snd (store_row fr s)) s"
  by (simp add: store_row_def same_draws_def same_problem_def Let_def split: option.splits)

lemma same_draws_sym: "same_draws s s' \<Longrightarrow> same_draws s' s"
  by (auto simp: same_draws_def same_problem_def)

lemma same_draws_trans: "same_draws s s' \<Longrightarrow> same_draws s' s'' \<Longrightarrow> same_draws s s''"
  by (auto simp: same_draws_def same_problem_def)

lemma same_draws_propose: "same_draws s s' \<Longrightarrow> propose R s' p = propose R s p"
  by (auto simp: propose_def same_draws_def same_problem_def)

lemma same_draws_get_lnprob: "same_draws s s' \<Longrightarrow> get_lnprob s' p = get_lnprob s p"
  by (simp add: get_lnprob_def same_draws_def same_problem_def)

lemma sample_step_result:
  assumes q: "propose R s (l_p fr) = (q, r1)"
    and a: "accept_test R (get_lnprob s q) (l_lnprob fr) r1 = (acc, r2)"
    and st: "sample_step R fr s = (Inr (f1, y), t)"
  shows "f1 = (if acc then fr\<lparr>l_p := q, l_lnprob := get_lnprob s q\<rparr> else fr)
    \<and> y = (l_p f1, l_lnprob f1, PyState r2)
    \<and> same_draws t (s\<lparr>u_random := r2\<rparr>)"
proof -
  let ?f = "if acc then fr\<lparr>l_p := q, l_lnprob := get_lnprob s q\<rparr> else fr"
  let ?s4 = "s\<lparr>iterations := iterations s + 1, u_random := r2,
           accepted := (if acc then accepted s + 1 else accepted s)\<rparr>"
  have t: "t = snd (store_row ?f ?s4)"
    using sample_step_state [OF q a] st by simp
  have f1: "f1 = ?f"
    using st q a by (cases acc) (auto simp: sample_step_def Let_def split: prod.splits sum.splits)
  have d: "same_draws t ?s4"
    unfolding t by (rule store_row_problem)
  have y: "y = (l_p f1, l_lnprob f1, random_state t)"
    by (rule sample_step_yield [OF st])
  have "u_random t = r2" using d by (simp add: same_draws_def)
  then have "y = (l_p f1, l_lnprob f1, PyState r2)"
    using y by (simp add: random_state_def get_state_def)
  moreover have "same_draws t (s\<lparr>u_random := r2\<rparr>)"
    using d by (simp add: same_draws_def same_problem_def)
  ultimately show ?thesis using f1 by simp
qed

lemma sample_step_agree:
  assumes d: "same_draws s s'" and fr: "same_frame fr fr'"
    and st: "sample_step R fr s = (Inr (f1, y), t)"
    and st': "sample_step R fr' s' = (Inr (f1', y'), t')"
  shows "y' = y \<and> same_frame f1 f1' \<and> same_draws t t'"
proof -
  obtain q r1 where q: "propose R s (l_p fr) = (q, r1)"
    by (cases "propose R s (l_p fr)")
  obtain acc r2 where a: "accept_test R (get_lnprob s q) (l_lnprob fr) r1 = (acc, r2)"
    by (rule accept_test_cases)
  have pl: "l_p fr' = l_p fr" "l_lnprob fr' = l_lnprob fr"
    using fr by (simp_all add: same_frame_def)
  have q': "propose R s' (l_p fr') = (q, r1)"
    using q pl same_draws_propose [OF d, of R "l_p fr"] by simp
  have g: "get_lnprob s' q = get_lnprob s q"
    by (rule same_draws_get_lnprob [OF d])
  have a': "accept_test R (get_lnprob s' q) (l_lnprob fr') r1 = (acc, r2)"
    using a pl g by simp
  note A = sample_step_result [OF q a st]
  note B = sample_step_result [OF q' a' st']
  have "same_draws (s\<lparr>u_random := r2\<rparr>) (s'\<lparr>u_random := r2\<rparr>)"
    using d by (simp add: same_draws_def same_problem_def)
  then have "same_draws t t'"
    using A B same_draws_trans same_draws_sym by blast
  moreover have "same_frame f1 f1'"
    using A B g fr by (cases acc) (simp_all add: same_frame_def)
  moreover have "y' = y"
    using A B pl g by (cases acc) simp_all
  ultimately show ?thesis by simp
qed

lemma sample_loop_agree:
  assumes d: "same_draws s s'" and fr: "same_frame fr fr'"
    and st: "sample_loop R fr s = (Inr out, g1, s1)"
    and st': "sample_loop R fr' s' = (Inr out', g1', s1')"
  shows "out' = out \<and> same_locals g1 g1' \<and> same_draws s1 s1'"
proof -
  have i: "l_i fr' = l_i fr" "l_iterations fr' = l_iterations fr"
    using fr by (simp_all add: same_frame_def)
  show ?thesis
  proof (cases "int (l_i fr) < l_iterations fr")
    case False
    then show ?thesis using st st' i d by (simp add: sample_loop_def)
  next
    case True
    obtain f1 y where a: "sample_step R fr s = (Inr (f1, y), s1)" "out = Some y" "g1 = Suspended f1"
      using st True by (auto simp: sample_loop_def split: prod.splits sum.splits)
    obtain f1' y' where b: "sample_step R fr' s' = (Inr (f1', y'), s1')" "out' = Some y'"
        "g1' = Suspended f1'"
      using st' True i by (auto simp: sample_loop_def split: prod.splits sum.splits)
    show ?thesis
      using sample_step_agree [OF d fr a(1) b(1)] a b by simp
  qed
qed

lemma sample_enter_agree:
  assumes d: "same_draws s s'"
    and e: "sample_enter R p lnprob rstate thin store_chain n s = (Inr fr, s1)"
    and e': "sample_enter R p lnprob rstate thin store_chain n s' = (Inr fr', s1')"
  shows "same_frame fr fr' \<and> same_draws s1 s1'"
proof -
  define r where "r = snd (set_state R rstate (u_random s))"
  have u: "u_random s' = u_random s" using d by (simp add: same_draws_def)
  have r: "random_state_set R rstate s = Inr (s\<lparr>u_random := r\<rparr>)"
    "random_state_set R rstate s' = Inr (s'\<lparr>u_random := r\<rparr>)"
    using u by (simp_all add: random_state_set_eq r_def)
  have g: "get_lnprob s' p = get_lnprob s p"
    by (rule same_draws_get_lnprob [OF d])
  show ?thesis
    using e e' d g r
    by (auto simp: sample_enter_def Let_def same_draws_def same_problem_def same_frame_def
        split: if_splits option.splits)
qed

lemma gen_next_agree:
  assumes d: "same_draws s s'" and g: "same_locals g g'"
    and st: "gen_next R g s = (Inr out, g1, s1)"
    and st': "gen_next R g' s' = (Inr out', g1', s1')"
  shows "out' = out \<and> same_locals g1 g1' \<and> same_draws s1 s1'"
proof (cases g)
  case (Created p lnprob rstate thin store_chain n)
  then have g': "g' = Created p lnprob rstate thin store_chain n" using g by simp
  obtain fr t where e: "sample_enter R p lnprob rstate thin store_chain n s = (Inr fr, t)"
      "sample_loop R fr t = (Inr out, g1, s1)"
    using st Created by (auto split: prod.splits sum.splits)
  obtain fr' t' where e': "sample_enter R p lnprob rstate thin store_chain n s' = (Inr fr', t')"
      "sample_loop R fr' t' = (Inr out', g1', s1')"
    using st' g' by (auto split: prod.splits sum.splits)
  from sample_enter_agree [OF d e(1) e'(1)]
  have "same_frame fr fr'" "same_draws t t'" by simp_all
  then show ?thesis using sample_loop_agree [OF _ _ e(2) e'(2)] by simp
next
  case (Suspended fr)
  then obtain fr' where g': "g' = Suspended fr'" "same_frame fr fr'"
    using g by (cases g') simp_all
  let ?f = "fr\<lparr>l_i := l_i fr + 1\<rparr>" and ?f' = "fr'\<lparr>l_i := l_i fr' + 1\<rparr>"
  have "same_frame ?f ?f'"
    using g'(2) by (simp add: same_frame_def)
  then show ?thesis
    using sample_loop_agree [OF d, of ?f ?f' R out g1 s1 out' g1' s1'] st st' Suspended g'(1)
    by simp
next
  case Closed
  then have "g' = Closed" using g by (cases g') simp_all
  then show ?thesis using st st' Closed d by auto
qed

lemma yielded_agree:
  assumes "same_draws s s'" and "same_locals g g'"
    and "yielded R g s = (ys, None, t)"
    and "yielded R g' s' = (ys', None, t')"
  shows "ys' = ys \<and> same_draws t t'"
  using assms
proof (induction R g s arbitrary: g' s' ys ys' t t' rule: yielded.induct)
  case (1 R g s)
  obtain out g1 s1 where n: "gen_next R g s = (out, g1, s1)"
    by (cases "gen_next R g s")
  obtain out' g1' s1' where n': "gen_next R g' s' = (out', g1', s1')"
    by (cases "gen_next R g' s'")
  from "1.prems"(3) n obtain o1 where o1: "out = Inr o1"
    by (cases out) (auto simp: yielded.simps [of R g s])
  from "1.prems"(4) n' obtain o1' where o1': "out' = Inr o1'"
    by (cases out') (auto simp: yielded.simps [of R g' s'])
  from gen_next_agree [OF "1.prems"(1,2) n [unfolded o1] n' [unfolded o1']]
  have ag: "o1' = o1" "same_locals g1 g1'" "same_draws s1 s1'" by simp_all
  show ?case
  proof (cases o1)
    case None
    then show ?thesis
      using "1.prems"(3,4) n n' o1 o1' ag
      by (simp add: yielded.simps [of R g s] yielded.simps [of R g' s'])
  next
    case (Some y)
    obtain zs where zs: "yielded R g1 s1 = (zs, None, t)" "ys = y # zs"
      using "1.prems"(3) n o1 Some
      by (auto simp: yielded.simps [of R g s] split: prod.splits)
    obtain zs' where zs': "yielded R g1' s1' = (zs', None, t')" "ys' = y # zs'"
      using "1.prems"(4) n' o1' ag(1) Some
      by (auto simp: yielded.simps [of R g' s'] split: prod.splits)
    have "zs' = zs \<and> same_draws t t'"
      using "1.IH" [OF n [symmetric] _ _ _ ag(3,2) zs(1) zs'(1)] o1 Some by simp
    then show ?thesis using zs zs' by simp
  qed
qed

text \<open>
  Samplers with the same problem definition but any bookkeeping (chain, counters,
  checkpoint): two step sequences from the same snapshot that both return yield the same
  triples. They can differ only by where a row write raises.
\<close>

lemma replay_any_bookkeeping:
  assumes sp: "same_problem s s'"
    and y: "yielded R (sample p lnprob (PyState r) thin store_chain n) s = (ys, None, t)"
    and y': "yielded R (sample p lnprob (PyState r) thin store_chain n) s' = (ys', None, t')"
  shows "ys' = ys \<and> same_draws t t'"
proof -
  have a: "yielded R (sample p lnprob (PyState r) thin store_chain n) (s\<lparr>u_random := r\<rparr>)
      = (ys, None, t)"
    using yielded_snapshot [where ?r1.0 = "u_random s" and s = s, of R p lnprob r thin store_chain n] y
    by simp
  have b: "yielded R (sample p lnprob (PyState r) thin store_chain n) (s'\<lparr>u_random := r\<rparr>)
      = (ys', None, t')"
    using yielded_snapshot [where ?r1.0 = "u_random s'" and s = s', of R p lnprob r thin store_chain n] y'
    by simp
  have d: "same_draws (s\<lparr>u_random := r\<rparr>) (s'\<lparr>u_random := r\<rparr>)"
    using sp by (simp add: same_draws_def same_problem_def)
  show ?thesis
    by (rule yielded_agree [OF d _ a b]) (simp add: sample_def)
qed

lemma sample_step_unstored:
  assumes "\<not> l_store_chain fr"
  shows "\<exists>f1 y t. sample_step R fr s = (Inr (f1, y), t) \<and> \<not> l_store_chain f1"
  using assms
  by (auto simp: sample_step_def store_row_def Let_def split: prod.splits)

lemma gen_next_unstored:
  assumes "unstored g"
  shows "\<exists>out g1 s1. gen_next R g s = (Inr out, g1, s1) \<and> unstored g1"
proof -
  have loop: "\<exists>out g1 s1. sample_loop R fr t = (Inr out, g1, s1) \<and> unstored g1"
    if "\<not> l_store_chain fr" for fr and t :: "('a, 'b, 'c) sampler"
    using sample_step_unstored [OF that, of R t]
    by (auto simp: sample_loop_def)
  show ?thesis
  proof (cases g)
    case (Created p lnprob rstate thin store_chain n)
    then have ns: "\<not> store_chain" using assms by simp
    obtain r where "random_state_set R rstate s = Inr (s\<lparr>u_random := r\<rparr>)"
      by (rule random_state_set_cases)
    then obtain fr where "sample_enter R p lnprob rstate thin store_chain n s = (Inr fr, s\<lparr>u_random := r\<rparr>)"
      "\<not> l_store_chain fr"
      using ns by (simp add: sample_enter_def Let_def)
    then show ?thesis using Created loop [of fr "s\<lparr>u_random := r\<rparr>"] by simp
  next
    case (Suspended fr)
    then show ?thesis using assms loop [of "fr\<lparr>l_i := l_i fr + 1\<rparr>" s] by simp
  next
    case Closed
    then show ?thesis by simp
  qed
qed

lemma yielded_unstored:
  "unstored g \<Longrightarrow> fst (snd (yielded R g s)) = None"
proof (induction R g s rule: yielded.induct)
  case (1 R g s)
  obtain out g1 s1 where n: "gen_next R g s = (Inr out, g1, s1)" "unstored g1"
    using gen_next_unstored [OF "1.prems", of R s] by blast
  show ?case
  proof (cases out)
    case None
    then show ?thesis using n by (simp add: yielded.simps [of R g s])
  next
    case (Some y)
    have "fst (snd (yielded R g1 s1)) = None"
      using "1.IH" [OF n(1) [symmetric] _ _ _ n(2)] Some by simp
    then show ?thesis
      using n Some by (auto simp: yielded.simps [of R g s] split: prod.splits)
  qed
qed

text \<open>
  Without \<open>store_chain\<close> a step sequence never raises, and what it yields does not depend
  on the sampler's bookkeeping at all.
\<close>

lemma replay_unstored:
  assumes "same_problem s s'"
  shows "fst (yielded R (sample p lnprob (PyState r) thin False n) s)
       = fst (yielded R (sample p lnprob (PyState r) thin False n) s')"
proof -
  let ?g = "sample p lnprob (PyState r) thin False n :: 'a generator"
  have u: "unstored ?g" by (simp add: sample_def)
  obtain ys e t where a: "yielded R ?g s = (ys, e, t)" by (cases "yielded R ?g s")
  obtain ys' e' t' where b: "yielded R ?g s' = (ys', e', t')" by (cases "yielded R ?g s'")
  have "e = None" "e' = None"
    using yielded_unstored [OF u, of R s] yielded_unstored [OF u, of R s'] a b by simp_all
  then show ?thesis
    using replay_any_bookkeeping [OF assms, of R p lnprob r thin False n ys t ys' t'] a b
    by simp
qed

text \<open>
  C4. Two step sequences with the same position, log-probability, snapshot of the
  generator state, length and options, on samplers that differ only in the state their
  generators were in before, yield the same sequence of triples, raise or not alike, and
  leave the same sampler, hence the same chain and log-probabilities; so do two calls of
  \<open>run\<close>. Two samplers made by \<open>__init__\<close> with the same arguments, or reset, differ
  in just that way. Without \<open>store_chain\<close> the sequences are the same on any two samplers
  with the same problem definition, whatever their chains, counters and checkpoints.
  (With \<open>store_chain\<close> and different bookkeeping, \<open>replay_any_bookkeeping\<close>: the sequences
  are the same when both return.)
\<close>

theorem replay_from_snapshot:
  "yielded R (sample p lnprob (PyState r) thin store_chain n) (s\<lparr>u_random := r1\<rparr>)
   = yielded R (sample p lnprob (PyState r) thin store_chain n) (s\<lparr>u_random := r2\<rparr>)
   \<and> run R (Some p) n lnprob (PyState r) thin store_chain (s\<lparr>u_random := r1\<rparr>)
   = run R (Some p) n lnprob (PyState r) thin store_chain (s\<lparr>u_random := r2\<rparr>)
   \<and> (same_problem s s' \<longrightarrow>
        fst (yielded R (sample p lnprob (PyState r) thin False n) s)
        = fst (yielded R (sample p lnprob (PyState r) thin False n) s'))"
  using replay_unstored [of s s' R p lnprob r thin n]
  by (simp add: run_def yielded_snapshot [where ?r1.0 = r1]
      yielded_snapshot [where ?r1.0 = r2]
      for_results_snapshot [where ?r1.0 = r1]
      for_results_snapshot [where ?r1.0 = r2])

theorem replay_from_snapshot_witness:
  "same_problem demo_up (snd (run demo_rng (Some [5]) 3 None PyNone 1 True demo_up))
   \<and> fst (yielded demo_rng (sample [0] None (PyState 7) 1 False 2)
          (snd (run demo_rng (Some [5]) 3 None PyNone 1 True demo_up)))
     = [([1], Fin 1, PyState 8), ([2], Fin 2, PyState 9)]"
proof -
  have sp: "same_problem demo_up (snd (run demo_rng (Some [5]) 3 None PyNone 1 True demo_up))"
    by (simp add: same_problem_def demo_defs step_defs)
  have "fst (yielded demo_rng (sample [0] None (PyState 7) 1 False 2) demo_up)
     = [([1], Fin 1, PyState 8), ([2], Fin 2, PyState 9)]"
    by (simp add: demo_defs step_defs yielded.simps)
  with sp replay_from_snapshot [where R = demo_rng and p = "[0]" and lnprob = None and r = 7
      and thin = 1 and n = 2 and s = demo_up
      and s' = "snd (run demo_rng (Some [5]) 3 None PyNone 1 True demo_up)"]
  show ?thesis by simp
qed

end
